theory Spec2Isabelle
  imports Complex_Main
begin

section \<open>Data model of the pathfinding module\<close>

text \<open>
  The pathfinding module of the navigation map (the 3D view imports it as
  \<^verbatim>\<open>utils/pathfinding\<close>). JavaScript numbers are modelled as real numbers, with a
  separate value for \<^verbatim>\<open>Infinity\<close> where the code uses it, so rounding errors of IEEE
  doubles, \<^verbatim>\<open>NaN\<close> coordinates and negative zero are outside the model. Property names
  inherited from \<^verbatim>\<open>Object.prototype\<close> are outside the model as well: looking up a key
  that an object does not own gives \<^verbatim>\<open>undefined\<close>.
\<close>

datatype node_type = Room | Hallway | Stairs | Elevator | Entrance

text \<open>Interface \<^verbatim>\<open>PathNode\<close>; the fields \<^verbatim>\<open>id\<close>, \<^verbatim>\<open>floor\<close> and \<^verbatim>\<open>type\<close> carry a prefix.
  The floor is an integer, as everywhere in the dataset.\<close>

record PathNode =
  node_id :: string
  position :: "real \<times> real \<times> real"
  node_floor :: int
  node_type :: node_type
  connections :: "string list"

datatype floor_change = Up | Down

text \<open>Interface \<^verbatim>\<open>PathStep\<close>; the fields \<^verbatim>\<open>from\<close>, \<^verbatim>\<open>to\<close> and \<^verbatim>\<open>floor\<close> carry a prefix,
  \<^verbatim>\<open>floorChange\<close> is optional and \<open>None\<close> is \<^verbatim>\<open>undefined\<close>.\<close>

record PathStep =
  step_from :: string
  step_to :: string
  direction :: string
  distance :: real
  instruction :: string
  step_floor :: int
  floorChange :: "floor_change option"

text \<open>A \<^verbatim>\<open>Record<string, PathNode>\<close> is the list of its own properties in creation
  order; the first entry of a key is the one that counts.\<close>

type_synonym graph = "(string \<times> PathNode) list"

definition mkNode :: "string \<Rightarrow> real \<times> real \<times> real \<Rightarrow> int \<Rightarrow> node_type \<Rightarrow> string list \<Rightarrow> PathNode" where
  "mkNode i p f t cs =
     \<lparr>node_id = i, position = p, node_floor = f, node_type = t, connections = cs\<rparr>"

definition navigationNodes :: graph where
  "navigationNodes =
   [(''ENTRANCE'', mkNode ''ENTRANCE'' (0, 1, -4) 1 Entrance [''HALL1_1'', ''HALL1_2'']),
    (''HALL1_1'', mkNode ''HALL1_1'' (0, 1, -2) 1 Hallway
       [''ENTRANCE'', ''HALL1_2'', ''B101'', ''STAIRS1'']),
    (''HALL1_2'', mkNode ''HALL1_2'' (2, 1, 0) 1 Hallway
       [''HALL1_1'', ''11840'', ''CAFE'', ''ELEVATOR1'']),
    (''STAIRS1'', mkNode ''STAIRS1'' (-1, 1, -1) 1 Stairs [''HALL1_1'', ''STAIRS2'']),
    (''ELEVATOR1'', mkNode ''ELEVATOR1'' (3, 1, -1) 1 Elevator [''HALL1_2'', ''ELEVATOR2'']),
    (''B101'', mkNode ''B101'' (0, 1, -2) 1 Room [''HALL1_1'']),
    (''11840'', mkNode ''11840'' (-2, 1, 2) 1 Room [''HALL1_2'']),
    (''CAFE'', mkNode ''CAFE'' (3, 1, 0) 1 Room [''HALL1_2'']),
    (''STAIRS2'', mkNode ''STAIRS2'' (-1, 2, -1) 2 Stairs [''STAIRS1'', ''HALL2_1'']),
    (''ELEVATOR2'', mkNode ''ELEVATOR2'' (3, 2, -1) 2 Elevator [''ELEVATOR1'', ''HALL2_2'']),
    (''HALL2_1'', mkNode ''HALL2_1'' (0, 2, 0) 2 Hallway
       [''STAIRS2'', ''HALL2_2'', ''A233'', ''C205'']),
    (''HALL2_2'', mkNode ''HALL2_2'' (2, 2, 1) 2 Hallway [''HALL2_1'', ''ELEVATOR2'', ''LIB'']),
    (''A233'', mkNode ''A233'' (2, 2, 0) 2 Room [''HALL2_1'']),
    (''C205'', mkNode ''C205'' (-1, 2, 1) 2 Room [''HALL2_1'']),
    (''LIB'', mkNode ''LIB'' (0, 2, 3) 2 Room [''HALL2_2''])]"

text \<open>\<^verbatim>\<open>navigationNodes[k]\<close>: \<open>None\<close> is \<^verbatim>\<open>undefined\<close>.\<close>

definition nodeAt :: "graph \<Rightarrow> string \<Rightarrow> PathNode option" where
  "nodeAt g k = map_of g k"

subsection \<open>\<^verbatim>\<open>Object.keys\<close>\<close>

text \<open>\<^verbatim>\<open>Object.keys\<close> lists the keys that are array indices first, in ascending numeric
  order, and then the other string keys in creation order. An array index is the
  canonical decimal form of an integer from 0 to \<open>2^32 - 2\<close>. The dataset has one such
  key, \<^verbatim>\<open>'11840'\<close>.\<close>

definition is_digit :: "char \<Rightarrow> bool" where
  "is_digit c = (c \<in> set ''0123456789'')"

definition digit_val :: "char \<Rightarrow> nat" where
  "digit_val c = of_char c - 48"

definition str_to_nat :: "string \<Rightarrow> nat" where
  "str_to_nat s = foldl (\<lambda>n c. 10 * n + digit_val c) 0 s"

definition is_array_index :: "string \<Rightarrow> bool" where
  "is_array_index s =
     (s \<noteq> [] \<and> list_all is_digit s \<and> (s = ''0'' \<or> hd s \<noteq> CHR ''0'')
      \<and> length s \<le> 10 \<and> str_to_nat s < 4294967295)"

definition Object_keys :: "(string \<times> 'a) list \<Rightarrow> string list" where
  "Object_keys obj =
     (let ks = rev (remdups (rev (map fst obj)))
      in sort_key str_to_nat (filter is_array_index ks)
         @ filter (\<lambda>k. \<not> is_array_index k) ks)"

subsection \<open>Distance and bearing\<close>

definition calculateDistance :: "real \<times> real \<times> real \<Rightarrow> real \<times> real \<times> real \<Rightarrow> real" where
  "calculateDistance pos1 pos2 =
     (case pos1 of (x1, y1, z1) \<Rightarrow> case pos2 of (x2, y2, z2) \<Rightarrow>
        sqrt ((x2 - x1)\<^sup>2 + (y2 - y1)\<^sup>2 + (z2 - z1)\<^sup>2))"

text \<open>\<^verbatim>\<open>Math.atan2(y, x)\<close> on real numbers: the angle of the point \<open>(x, y)\<close> in
  \<open>(-pi, pi]\<close>, and \<open>0\<close> at the origin (what JavaScript returns for \<^verbatim>\<open>atan2(0, 0)\<close>).\<close>

definition atan2 :: "real \<Rightarrow> real \<Rightarrow> real" where
  "atan2 y x =
     (if 0 < x then arctan (y / x)
      else if x < 0 then (if 0 \<le> y then arctan (y / x) + pi else arctan (y / x) - pi)
      else if 0 < y then pi / 2
      else if y < 0 then - (pi / 2)
      else 0)"

text \<open>The chain of sector tests of \<^verbatim>\<open>getDirection\<close>, as a function of the angle in degrees.\<close>

definition directionOfAngle :: "real \<Rightarrow> string" where
  "directionOfAngle angle =
     (if angle \<ge> -22.5 \<and> angle < 22.5 then ''east''
      else if angle \<ge> 22.5 \<and> angle < 67.5 then ''northeast''
      else if angle \<ge> 67.5 \<and> angle < 112.5 then ''north''
      else if angle \<ge> 112.5 \<and> angle < 157.5 then ''northwest''
      else if angle \<ge> 157.5 \<or> angle < -157.5 then ''west''
      else if angle \<ge> -157.5 \<and> angle < -112.5 then ''southwest''
      else if angle \<ge> -112.5 \<and> angle < -67.5 then ''south''
      else if angle \<ge> -67.5 \<and> angle < -22.5 then ''southeast''
      else ''forward'')"

definition getDirection :: "real \<times> real \<times> real \<Rightarrow> real \<times> real \<times> real \<Rightarrow> string" where
  "getDirection from to =
     (case from of (x1, _, z1) \<Rightarrow> case to of (x2, _, z2) \<Rightarrow>
        let dx = x2 - x1;
            dz = z2 - z1;
            angle = atan2 dz dx * 180 / pi
        in directionOfAngle angle)"

subsection \<open>Instruction synthesis\<close>

text \<open>A number in a template string: the decimal form of an integer.\<close>

definition digit_char :: "nat \<Rightarrow> char" where
  "digit_char n = ''0123456789'' ! (n mod 10)"

function show_nat :: "nat \<Rightarrow> string" where
  "show_nat n = (if n < 10 then [digit_char n] else show_nat (n div 10) @ [digit_char n])"
  by pat_completeness auto
termination
  by (relation "measure id") auto

definition show_int :: "int \<Rightarrow> string" where
  "show_int i = (if i < 0 then CHR ''-'' # show_nat (nat (- i)) else show_nat (nat i))"

text \<open>\<^verbatim>\<open>Math.round\<close>: the nearest integer, a tie going up.\<close>

definition Math_round :: "real \<Rightarrow> int" where
  "Math_round x = \<lfloor>x + 1 / 2\<rfloor>"

text \<open>The body of the loop over the path in \<^verbatim>\<open>findPath\<close>: the step from one node to the
  next.\<close>

definition makeStep :: "PathNode \<Rightarrow> PathNode \<Rightarrow> PathStep" where
  "makeStep fromNode toNode =
     (let dir = getDirection (position fromNode) (position toNode);
          len = calculateDistance (position fromNode) (position toNode);
          (text, change) =
            (if node_type toNode = Stairs then
               (if node_floor toNode > node_floor fromNode
                then (''Take the stairs up to floor '' @ show_int (node_floor toNode), Some Up)
                else (''Take the stairs down to floor '' @ show_int (node_floor toNode),
                      Some Down))
             else if node_type toNode = Elevator then
               (if node_floor toNode > node_floor fromNode
                then (''Take the elevator up to floor '' @ show_int (node_floor toNode), Some Up)
                else if node_floor toNode < node_floor fromNode
                then (''Take the elevator down to floor '' @ show_int (node_floor toNode),
                      Some Down)
                else (''Continue to the elevator'', None))
             else if node_type toNode = Room then (''Arrive at '' @ node_id toNode, None)
             else if node_type toNode = Hallway
             then (''Continue '' @ dir @ '' down the hallway'', None)
             else (''Head '' @ dir, None))
      in \<lparr>step_from = node_id fromNode, step_to = node_id toNode, direction = dir,
          distance = real_of_int (Math_round (len * 10)) / 10, instruction = text,
          step_floor = node_floor toNode, floorChange = change\<rparr>)"

subsection \<open>The search\<close>

text \<open>A tentative distance is a number or \<^verbatim>\<open>Infinity\<close>.\<close>

datatype jsnum = Fin real | PosInfinity

fun num_less :: "jsnum \<Rightarrow> jsnum \<Rightarrow> bool" where
  "num_less (Fin a) (Fin b) = (a < b)"
| "num_less (Fin a) PosInfinity = True"
| "num_less PosInfinity b = False"

fun num_add :: "jsnum \<Rightarrow> real \<Rightarrow> jsnum" where
  "num_add (Fin a) d = Fin (a + d)"
| "num_add PosInfinity d = PosInfinity"

text \<open>What a failing property access throws.\<close>

datatype error = TypeError

text \<open>The working maps of one call. In \<open>previous\<close> the value \<open>None\<close> is \<^verbatim>\<open>null\<close>; a key
  outside the domain of a map reads as \<^verbatim>\<open>undefined\<close>. The set \<open>unvisited\<close> keeps its
  insertion order.\<close>

record dstate =
  distances :: "string \<rightharpoonup> jsnum"
  previous :: "string \<rightharpoonup> string option"
  unvisited :: "string list"

definition initState :: "string \<Rightarrow> string list \<Rightarrow> dstate" where
  "initState startId keys =
     \<lparr>distances =
        foldl (\<lambda>d nodeId. d(nodeId \<mapsto> (if nodeId = startId then Fin 0 else PosInfinity)))
          Map.empty keys,
      previous = foldl (\<lambda>p nodeId. p(nodeId \<mapsto> None)) Map.empty keys,
      unvisited = keys\<rparr>"

text \<open>The scan for the unvisited node of minimum distance; the accumulator is
  \<open>(currentNode, minDistance)\<close>, starting at \<open>(None, PosInfinity)\<close>. A comparison with
  \<^verbatim>\<open>undefined\<close> is false.\<close>

fun selectMin :: "(string \<rightharpoonup> jsnum) \<Rightarrow> string list \<Rightarrow> string option \<times> jsnum
    \<Rightarrow> string option \<times> jsnum" where
  "selectMin d [] acc = acc"
| "selectMin d (nodeId # rest) (currentNode, minDistance) =
     (case d nodeId of
        Some x \<Rightarrow>
          if num_less x minDistance then selectMin d rest (Some nodeId, x)
          else selectMin d rest (currentNode, minDistance)
      | None \<Rightarrow> selectMin d rest (currentNode, minDistance))"

text \<open>The loop over \<open>node.connections\<close> that updates the neighbours of \<open>currentNode\<close>.\<close>

fun relax :: "graph \<Rightarrow> string \<Rightarrow> PathNode \<Rightarrow> string list \<Rightarrow> dstate \<Rightarrow> error + dstate" where
  "relax g currentNode node [] st = Inr st"
| "relax g currentNode node (neighborId # rest) st =
     (if neighborId \<notin> set (unvisited st) then relax g currentNode node rest st
      else case nodeAt g neighborId of
        None \<Rightarrow> Inl TypeError
      | Some neighbor \<Rightarrow>
          (case (distances st currentNode, distances st neighborId) of
             (Some dc, Some dn) \<Rightarrow>
               let newDistance = num_add dc (calculateDistance (position node) (position neighbor))
               in if num_less newDistance dn
                  then relax g currentNode node rest
                         (st\<lparr>distances := (distances st)(neighborId \<mapsto> newDistance),
                             previous := (previous st)(neighborId \<mapsto> Some currentNode)\<rparr>)
                  else relax g currentNode node rest st
           | _ \<Rightarrow> relax g currentNode node rest st))"

lemma selectMin_member:
  "selectMin d xs acc = (Some c, m) \<Longrightarrow> fst acc = Some c \<or> c \<in> set xs"
  by (induction d xs acc rule: selectMin.induct) (auto split: option.splits if_splits)

lemma relax_unvisited:
  "relax g c node ns st = Inr st' \<Longrightarrow> unvisited st' = unvisited st"
  by (induction g c node ns st rule: relax.induct)
     (auto split: if_splits option.splits simp: Let_def)

text \<open>The \<^verbatim>\<open>while (unvisited.size > 0)\<close> loop. The test \<^verbatim>\<open>!currentNode\<close> holds for
  \<^verbatim>\<open>null\<close> and for the empty string.\<close>

function dijkstra :: "graph \<Rightarrow> string \<Rightarrow> dstate \<Rightarrow> error + dstate" where
  "dijkstra g endId st =
     (if unvisited st = [] then Inr st
      else case selectMin (distances st) (unvisited st) (None, PosInfinity) of
        (None, minDistance) \<Rightarrow> Inr st
      | (Some currentNode, minDistance) \<Rightarrow>
          if currentNode = [] \<or> distances st currentNode = Some PosInfinity then Inr st
          else
            let st1 = st\<lparr>unvisited := removeAll currentNode (unvisited st)\<rparr>
            in if currentNode = endId then Inr st1
               else (case nodeAt g currentNode of
                       None \<Rightarrow> Inl TypeError
                     | Some node \<Rightarrow>
                         (case relax g currentNode node (connections node) st1 of
                            Inl e \<Rightarrow> Inl e
                          | Inr st2 \<Rightarrow> dijkstra g endId st2)))"
  by pat_completeness auto
termination
proof (relation "measure (\<lambda>(g, endId, st). length (unvisited st))", goal_cases)
  case 1
  show ?case by simp
next
  case (2 g endId st sel minDistance currentNode st1 node st2)
  have "selectMin (distances st) (unvisited st) (None, PosInfinity) = (Some currentNode, minDistance)"
    using 2 by simp
  then have "currentNode \<in> set (unvisited st)"
    using selectMin_member[of "distances st" "unvisited st" "(None, PosInfinity)" currentNode]
    by auto
  then have "length (removeAll currentNode (unvisited st)) < length (unvisited st)"
    by (simp add: length_removeAll_less)
  moreover have "unvisited st2 = removeAll currentNode (unvisited st)"
    using 2 relax_unvisited[of g currentNode node "connections node" st1 st2] by simp
  ultimately show ?case by simp
qed

declare dijkstra.simps [simp del]

subsection \<open>Path reconstruction\<close>

text \<open>A value of the variable \<open>current\<close>: \<^verbatim>\<open>null\<close>, \<^verbatim>\<open>undefined\<close> or a string. As a
  property key \<^verbatim>\<open>undefined\<close> is the string \<^verbatim>\<open>'undefined'\<close>.\<close>

datatype ref = Null | Undefined | Str string

fun key_of :: "ref \<Rightarrow> string" where
  "key_of (Str s) = s"
| "key_of Undefined = ''undefined''"
| "key_of Null = ''null''"

definition readPrevious :: "(string \<rightharpoonup> string option) \<Rightarrow> ref \<Rightarrow> ref" where
  "readPrevious prev current =
     (case prev (key_of current) of
        None \<Rightarrow> Undefined
      | Some None \<Rightarrow> Null
      | Some (Some p) \<Rightarrow> Str p)"

text \<open>The loop \<^verbatim>\<open>while (current !== null)\<close>. It has no bound of its own: \<^verbatim>\<open>undefined\<close> is
  not \<^verbatim>\<open>null\<close>, so a chain that reaches \<^verbatim>\<open>undefined\<close> goes on until the array cannot
  grow any more. \<open>None\<close> stands for such a call, which does not return.\<close>

partial_function (option) reconstruct ::
    "(string \<rightharpoonup> string option) \<Rightarrow> ref \<Rightarrow> ref list \<Rightarrow> ref list option" where
  "reconstruct prev current path =
     (if current \<noteq> Null then reconstruct prev (readPrevious prev current) (current # path)
      else Some path)"

text \<open>The loop over the path: a step for each pair of neighbours in it. Reading
  \<open>position\<close> of a node that is \<^verbatim>\<open>undefined\<close> throws.\<close>

fun pathSteps :: "graph \<Rightarrow> ref list \<Rightarrow> error + PathStep list" where
  "pathSteps g (a # b # rest) =
     (case (nodeAt g (key_of a), nodeAt g (key_of b)) of
        (Some fromNode, Some toNode) \<Rightarrow>
          (case pathSteps g (b # rest) of
             Inl e \<Rightarrow> Inl e
           | Inr steps \<Rightarrow> Inr (makeStep fromNode toNode # steps))
      | _ \<Rightarrow> Inl TypeError)"
| "pathSteps g [a] = Inr []"
| "pathSteps g [] = Inr []"

text \<open>The first half of \<^verbatim>\<open>findPath\<close>, over a given graph: the search and the
  reconstruction of the path. The result is \<open>None\<close> when the call does not return,
  \<open>Some (Inl e)\<close> when it throws and \<open>Some (Inr path)\<close> when it gets to the loop over
  \<open>path\<close>.\<close>

definition shortestPath :: "graph \<Rightarrow> string \<Rightarrow> string \<Rightarrow> (error + ref list) option" where
  "shortestPath g startId endId =
     (case dijkstra g endId (initState startId (Object_keys g)) of
        Inl e \<Rightarrow> Some (Inl e)
      | Inr st \<Rightarrow>
          (case reconstruct (previous st) (Str endId) [] of
             None \<Rightarrow> None
           | Some path \<Rightarrow> Some (Inr path)))"

text \<open>\<^verbatim>\<open>findPath\<close> over a given graph, and over the dataset as the module has it.\<close>

definition findPathOn :: "graph \<Rightarrow> string \<Rightarrow> string \<Rightarrow> (error + PathStep list) option" where
  "findPathOn g startId endId =
     (case shortestPath g startId endId of
        None \<Rightarrow> None
      | Some (Inl e) \<Rightarrow> Some (Inl e)
      | Some (Inr path) \<Rightarrow> Some (pathSteps g path))"

definition findPath :: "string \<Rightarrow> string \<Rightarrow> (error + PathStep list) option" where
  "findPath startId endId = findPathOn navigationNodes startId endId"

subsection \<open>Path nodes for the display\<close>

text \<open>\<^verbatim>\<open>Set.add\<close> on a set kept in insertion order.\<close>

definition set_add :: "string list \<Rightarrow> string \<Rightarrow> string list" where
  "set_add nodes x = (if x \<in> set nodes then nodes else nodes @ [x])"

definition getPathNodes :: "PathStep list \<Rightarrow> string list" where
  "getPathNodes steps =
     foldl (\<lambda>nodes step. set_add (set_add nodes (step_from step)) (step_to step)) [] steps"

text \<open>The contract of the path-node extractor in the words of the specification: the
  distinct ids of a list of references, in first-seen order.\<close>

fun first_seen :: "string list \<Rightarrow> string list" where
  "first_seen [] = []"
| "first_seen (x # xs) = x # first_seen (filter (\<lambda>y. y \<noteq> x) xs)"

text \<open>The ids an instruction list refers to, in reading order: \<open>from\<close> then \<open>to\<close> of each
  step.\<close>

definition step_refs :: "PathStep list \<Rightarrow> string list" where
  "step_refs steps = concat (map (\<lambda>step. [step_from step, step_to step]) steps)"

subsection \<open>Paths in the graph\<close>

text \<open>The notions the properties of the planner are stated with. An edge leads from a
  node of the graph to a neighbour it lists that is a node of the graph as well; its
  length is the distance of the two positions. A valid path is a non-empty list of nodes
  joined by edges.\<close>

definition edge :: "graph \<Rightarrow> string \<Rightarrow> string \<Rightarrow> bool" where
  "edge g u v =
     (case nodeAt g u of
        None \<Rightarrow> False
      | Some node \<Rightarrow> v \<in> set (connections node) \<and> nodeAt g v \<noteq> None)"

definition edge_length :: "graph \<Rightarrow> string \<Rightarrow> string \<Rightarrow> real" where
  "edge_length g u v =
     (case (nodeAt g u, nodeAt g v) of
        (Some a, Some b) \<Rightarrow> calculateDistance (position a) (position b)
      | _ \<Rightarrow> 0)"

fun valid_path :: "graph \<Rightarrow> string list \<Rightarrow> bool" where
  "valid_path g [] = False"
| "valid_path g [a] = (nodeAt g a \<noteq> None)"
| "valid_path g (a # b # rest) = (edge g a b \<and> valid_path g (b # rest))"

fun path_length :: "graph \<Rightarrow> string list \<Rightarrow> real" where
  "path_length g (a # b # rest) = edge_length g a b + path_length g (b # rest)"
| "path_length g [a] = 0"
| "path_length g [] = 0"

definition reachable :: "graph \<Rightarrow> string \<Rightarrow> string \<Rightarrow> bool" where
  "reachable g a b = (\<exists>p. valid_path g p \<and> hd p = a \<and> last p = b)"

text \<open>A path that follows the map \<open>previous\<close> from the start, where it holds \<^verbatim>\<open>null\<close>.\<close>

inductive tree_path :: "graph \<Rightarrow> (string \<rightharpoonup> string option) \<Rightarrow> string \<Rightarrow> string list \<Rightarrow> bool"
  for g prev s where
  root: "prev s = Some None \<Longrightarrow> nodeAt g s \<noteq> None \<Longrightarrow> tree_path g prev s [s]"
| child: "tree_path g prev s p \<Longrightarrow> prev v = Some (Some (last p)) \<Longrightarrow> edge g (last p) v
           \<Longrightarrow> tree_path g prev s (p @ [v])"

text \<open>The \<open>id\<close> field of every node is its key in the graph.\<close>

definition key_ids :: "graph \<Rightarrow> bool" where
  "key_ids g \<longleftrightarrow> list_all (\<lambda>(k, node). node_id node = k) g"

subsection \<open>Invariants of the search loop\<close>

text \<open>What holds of the state whenever the loop condition is evaluated, for a search from
  \<open>s\<close>: the maps are defined on the keys of the graph, every finite tentative distance is
  the length of a path along \<open>previous\<close> whose inner nodes are settled, and a node at
  \<^verbatim>\<open>Infinity\<close> has no predecessor.\<close>

definition search_inv :: "graph \<Rightarrow> string \<Rightarrow> dstate \<Rightarrow> bool" where
  "search_inv g s st \<longleftrightarrow>
     set (unvisited st) \<subseteq> set (Object_keys g)
     \<and> dom (distances st) = set (Object_keys g)
     \<and> dom (previous st) = set (Object_keys g)
     \<and> (\<forall>v d. distances st v = Some (Fin d) \<longrightarrow>
           (\<exists>p. tree_path g (previous st) s p \<and> last p = v \<and> path_length g p = d
                \<and> set (butlast p) \<inter> set (unvisited st) = {}))
     \<and> (\<forall>v. distances st v = Some PosInfinity \<longrightarrow> previous st v = Some None)"

text \<open>The part of the invariant that gives optimality: the start is at distance 0, no edge
  out of a settled node can shorten a distance, and settled nodes are no farther than
  unvisited ones.\<close>

definition search_opt :: "graph \<Rightarrow> string \<Rightarrow> dstate \<Rightarrow> bool" where
  "search_opt g s st \<longleftrightarrow>
     distances st s = Some (Fin 0)
     \<and> (\<forall>u v. u \<in> set (Object_keys g) \<and> u \<notin> set (unvisited st) \<and> edge g u v \<longrightarrow>
           (\<exists>du dv. distances st u = Some (Fin du) \<and> distances st v = Some (Fin dv)
              \<and> dv \<le> du + edge_length g u v))
     \<and> (\<forall>u v dv. u \<in> set (Object_keys g) \<and> u \<notin> set (unvisited st) \<and> v \<in> set (unvisited st)
            \<and> distances st v = Some (Fin dv) \<longrightarrow>
           (\<exists>du. distances st u = Some (Fin du) \<and> du \<le> dv))"

subsection \<open>Two small graphs\<close>

text \<open>Two rooms with no connection, and three nodes on a line.\<close>

definition two_rooms :: graph where
  "two_rooms =
     [(''A'', mkNode ''A'' (0, 0, 0) 1 Room []),
      (''B'', mkNode ''B'' (1, 0, 0) 1 Room [])]"

definition corridor :: graph where
  "corridor =
     [(''A'', mkNode ''A'' (0, 0, 0) 1 Entrance [''B'', ''C'']),
      (''B'', mkNode ''B'' (3 / 4, 0, 0) 1 Room [''A'', ''C'']),
      (''C'', mkNode ''C'' (1 / 4, 0, 0) 1 Hallway [''A'', ''B''])]"

section \<open>The bearing classifier\<close>

lemma atan2_range: "- pi < atan2 y x \<and> atan2 y x \<le> pi"
proof -
  have a: "- (pi / 2) < arctan (y / x)" "arctan (y / x) < pi / 2"
    using arctan_lbound[of "y / x"] arctan_ubound[of "y / x"] by auto
  have b: "0 \<le> y \<Longrightarrow> x < 0 \<Longrightarrow> arctan (y / x) \<le> 0"
    by (simp add: divide_nonneg_neg zero_le_arctan_iff arctan_le_zero_iff)
  have c: "y < 0 \<Longrightarrow> x < 0 \<Longrightarrow> 0 < arctan (y / x)"
    by (simp add: divide_neg_neg zero_less_arctan_iff)
  show ?thesis
    using a b c pi_gt_zero by (auto simp: atan2_def)
qed

lemma degrees_of_pi: "c * pi * 180 / pi = c * 180"
  by simp

lemma getDirection_angle:
  "getDirection (x1, y1, z1) (x2, y2, z2) = directionOfAngle (atan2 (z2 - z1) (x2 - x1) * 180 / pi)"
  by (simp add: getDirection_def)

lemma atan2_compass:
  "atan2 0 1 = 0 * pi" "atan2 1 1 = 1 / 4 * pi" "atan2 1 0 = 1 / 2 * pi"
  "atan2 1 (- 1) = 3 / 4 * pi" "atan2 0 (- 1) = 1 * pi" "atan2 (- 1) (- 1) = - (3 / 4) * pi"
  "atan2 (- 1) 0 = - (1 / 2) * pi" "atan2 (- 1) 1 = - (1 / 4) * pi"
  by (simp_all add: atan2_def arctan_one arctan_minus)

lemma atan2_sin_cos:
  assumes "- pi < t" and "t \<le> pi"
  shows "atan2 (sin t) (cos t) = t"
proof -
  consider "- (pi / 2) < t \<and> t < pi / 2" | "pi / 2 < t" | "t < - (pi / 2)"
    | "t = pi / 2" | "t = - (pi / 2)"
    by linarith
  then show ?thesis
  proof cases
    case 1
    then have c: "0 < cos t" by (simp add: cos_gt_zero_pi)
    have "arctan (sin t / cos t) = t" using 1 arctan_tan[of t] by (simp add: tan_def)
    then show ?thesis using c by (simp add: atan2_def)
  next
    case 2
    let ?u = "t - pi"
    have u: "- (pi / 2) < ?u" "?u < pi / 2" using 2 assms by simp_all
    have cu: "0 < cos ?u" using u by (rule cos_gt_zero_pi)
    have "cos ?u = - cos t" by (simp add: cos_diff)
    then have c: "cos t < 0" using cu by linarith
    have s: "0 \<le> sin t" using 2 assms pi_gt_zero by (intro sin_ge_zero) simp_all
    have "tan ?u = sin t / cos t" by (simp add: tan_def sin_diff cos_diff)
    then have "arctan (sin t / cos t) = ?u" using arctan_tan[OF u] by simp
    then show ?thesis using c s by (simp add: atan2_def)
  next
    case 3
    let ?u = "t + pi"
    have u: "- (pi / 2) < ?u" "?u < pi / 2" using 3 assms by simp_all
    have u0: "0 < ?u" "?u < pi" using 3 assms by simp_all
    have cu: "0 < cos ?u" using u by (rule cos_gt_zero_pi)
    have "cos ?u = - cos t" by (simp add: cos_add)
    then have c: "cos t < 0" using cu by linarith
    have "0 < sin ?u" using u0 by (rule sin_gt_zero)
    moreover have "sin ?u = - sin t" by (simp add: sin_add)
    ultimately have s: "sin t < 0" by linarith
    have "tan ?u = sin t / cos t" by (simp add: tan_def sin_add cos_add)
    then have "arctan (sin t / cos t) = ?u" using arctan_tan[OF u] by simp
    then show ?thesis using c s by (simp add: atan2_def)
  next
    case 4
    show ?thesis unfolding 4 by (simp add: atan2_def)
  next
    case 5
    show ?thesis unfolding 5 by (simp add: atan2_def)
  qed
qed

text \<open>
  Claim C8. The bearing classifier is total and its sectors partition the range of the
  two-argument arctangent. For every pair of positions \<open>getDirection\<close> returns
  \<open>directionOfAngle\<close> of the angle \<open>atan2 dz dx * 180 / pi\<close> of the horizontal
  displacement; that angle lies in \<open>(-180, 180]\<close>; the label returned is one of the eight
  compass labels, never the fallback \<open>forward\<close>; and each label is returned exactly when
  the angle of the displacement lies in the half-open sector of 45 degrees of that label
  (the sector of \<open>west\<close> wraps around at 180), so the sectors neither overlap nor leave a
  gap. The whole range is covered by displacements: every angle \<open>t\<close> of \<open>(-pi, pi]\<close> is the
  \<open>atan2\<close> of the displacement \<open>(cos t, sin t)\<close>. The eight unit displacements along the
  axes and the diagonals get the eight labels, and the angles -180, -135, -90, -45, 0,
  44.9, 45 and 90.1 are classified as \<open>west\<close>, \<open>southwest\<close>, \<open>south\<close>, \<open>southeast\<close>, \<open>east\<close>,
  \<open>northeast\<close>, \<open>northeast\<close> and \<open>north\<close>.
\<close>

theorem bearing_sectors_partition:
  "getDirection src dst \<in> {''east'', ''northeast'', ''north'', ''northwest'', ''west'',
       ''southwest'', ''south'', ''southeast''}
   \<and> getDirection src dst \<noteq> ''forward''
   \<and> directionOfAngle a \<noteq> ''forward''
   \<and> - 180 < atan2 y x * 180 / pi \<and> atan2 y x * 180 / pi \<le> 180
   \<and> (directionOfAngle a = ''east'' \<longleftrightarrow> - 22.5 \<le> a \<and> a < 22.5)
   \<and> (directionOfAngle a = ''northeast'' \<longleftrightarrow> 22.5 \<le> a \<and> a < 67.5)
   \<and> (directionOfAngle a = ''north'' \<longleftrightarrow> 67.5 \<le> a \<and> a < 112.5)
   \<and> (directionOfAngle a = ''northwest'' \<longleftrightarrow> 112.5 \<le> a \<and> a < 157.5)
   \<and> (directionOfAngle a = ''west'' \<longleftrightarrow> 157.5 \<le> a \<or> a < - 157.5)
   \<and> (directionOfAngle a = ''southwest'' \<longleftrightarrow> - 157.5 \<le> a \<and> a < - 112.5)
   \<and> (directionOfAngle a = ''south'' \<longleftrightarrow> - 112.5 \<le> a \<and> a < - 67.5)
   \<and> (directionOfAngle a = ''southeast'' \<longleftrightarrow> - 67.5 \<le> a \<and> a < - 22.5)
   \<and> (let angle = atan2 (zb - za) (xb - xa) * 180 / pi;
            bearing = getDirection (xa, ya, za) (xb, yb, zb)
        in bearing = directionOfAngle angle
         \<and> - 180 < angle \<and> angle \<le> 180
         \<and> (bearing = ''east'' \<longleftrightarrow> - 22.5 \<le> angle \<and> angle < 22.5)
         \<and> (bearing = ''northeast'' \<longleftrightarrow> 22.5 \<le> angle \<and> angle < 67.5)
         \<and> (bearing = ''north'' \<longleftrightarrow> 67.5 \<le> angle \<and> angle < 112.5)
         \<and> (bearing = ''northwest'' \<longleftrightarrow> 112.5 \<le> angle \<and> angle < 157.5)
         \<and> (bearing = ''west'' \<longleftrightarrow> 157.5 \<le> angle \<or> angle < - 157.5)
         \<and> (bearing = ''southwest'' \<longleftrightarrow> - 157.5 \<le> angle \<and> angle < - 112.5)
         \<and> (bearing = ''south'' \<longleftrightarrow> - 112.5 \<le> angle \<and> angle < - 67.5)
         \<and> (bearing = ''southeast'' \<longleftrightarrow> - 67.5 \<le> angle \<and> angle < - 22.5))
   \<and> (\<forall>t. - pi < t \<and> t \<le> pi \<longrightarrow> atan2 (sin t) (cos t) = t)
   \<and> getDirection (0, 0, 0) (1, 0, 0) = ''east''
   \<and> getDirection (0, 0, 0) (1, 0, 1) = ''northeast''
   \<and> getDirection (0, 0, 0) (0, 0, 1) = ''north''
   \<and> getDirection (0, 0, 0) (- 1, 0, 1) = ''northwest''
   \<and> getDirection (0, 0, 0) (- 1, 0, 0) = ''west''
   \<and> getDirection (0, 0, 0) (- 1, 0, - 1) = ''southwest''
   \<and> getDirection (0, 0, 0) (0, 0, - 1) = ''south''
   \<and> getDirection (0, 0, 0) (1, 0, - 1) = ''southeast''
   \<and> directionOfAngle (- 180) = ''west'' \<and> directionOfAngle (- 135) = ''southwest''
   \<and> directionOfAngle (- 90) = ''south'' \<and> directionOfAngle (- 45) = ''southeast''
   \<and> directionOfAngle 0 = ''east'' \<and> directionOfAngle 44.9 = ''northeast''
   \<and> directionOfAngle 45 = ''northeast'' \<and> directionOfAngle 90.1 = ''north''"
proof -
  have r: "- 180 < atan2 y x * 180 / pi \<and> atan2 y x * 180 / pi \<le> 180" for y x
    using atan2_range[of y x] pi_gt_zero by (simp add: field_simps)
  have t: "\<And>b. directionOfAngle b \<in> {''east'', ''northeast'', ''north'', ''northwest'', ''west'',
       ''southwest'', ''south'', ''southeast''}"
    by (simp add: directionOfAngle_def)
  have g: "getDirection src dst \<in> {''east'', ''northeast'', ''north'', ''northwest'', ''west'',
       ''southwest'', ''south'', ''southeast''}"
    using t by (simp add: getDirection_def split: prod.splits)
  have g': "getDirection src dst \<noteq> ''forward''" using g by auto
  have s: "(directionOfAngle b = ''east'' \<longleftrightarrow> - 22.5 \<le> b \<and> b < 22.5)
   \<and> (directionOfAngle b = ''northeast'' \<longleftrightarrow> 22.5 \<le> b \<and> b < 67.5)
   \<and> (directionOfAngle b = ''north'' \<longleftrightarrow> 67.5 \<le> b \<and> b < 112.5)
   \<and> (directionOfAngle b = ''northwest'' \<longleftrightarrow> 112.5 \<le> b \<and> b < 157.5)
   \<and> (directionOfAngle b = ''west'' \<longleftrightarrow> 157.5 \<le> b \<or> b < - 157.5)
   \<and> (directionOfAngle b = ''southwest'' \<longleftrightarrow> - 157.5 \<le> b \<and> b < - 112.5)
   \<and> (directionOfAngle b = ''south'' \<longleftrightarrow> - 112.5 \<le> b \<and> b < - 67.5)
   \<and> (directionOfAngle b = ''southeast'' \<longleftrightarrow> - 67.5 \<le> b \<and> b < - 22.5)" for b
    by (simp add: directionOfAngle_def)
  have f: "directionOfAngle a \<noteq> ''forward''" by (simp add: directionOfAngle_def)
  have l: "getDirection (xa, ya, za) (xb, yb, zb)
      = directionOfAngle (atan2 (zb - za) (xb - xa) * 180 / pi)"
    by (rule getDirection_angle)
  have e: "getDirection (0, 0, 0) (1, 0, 0) = ''east''"
    "getDirection (0, 0, 0) (1, 0, 1) = ''northeast''"
    "getDirection (0, 0, 0) (0, 0, 1) = ''north''"
    "getDirection (0, 0, 0) (- 1, 0, 1) = ''northwest''"
    "getDirection (0, 0, 0) (- 1, 0, 0) = ''west''"
    "getDirection (0, 0, 0) (- 1, 0, - 1) = ''southwest''"
    "getDirection (0, 0, 0) (0, 0, - 1) = ''south''"
    "getDirection (0, 0, 0) (1, 0, - 1) = ''southeast''"
    by (simp_all add: getDirection_angle atan2_compass degrees_of_pi directionOfAngle_def
        del: times_divide_eq_left)
  have p: "let angle = atan2 (zb - za) (xb - xa) * 180 / pi;
            bearing = getDirection (xa, ya, za) (xb, yb, zb)
        in bearing = directionOfAngle angle
         \<and> - 180 < angle \<and> angle \<le> 180
         \<and> (bearing = ''east'' \<longleftrightarrow> - 22.5 \<le> angle \<and> angle < 22.5)
         \<and> (bearing = ''northeast'' \<longleftrightarrow> 22.5 \<le> angle \<and> angle < 67.5)
         \<and> (bearing = ''north'' \<longleftrightarrow> 67.5 \<le> angle \<and> angle < 112.5)
         \<and> (bearing = ''northwest'' \<longleftrightarrow> 112.5 \<le> angle \<and> angle < 157.5)
         \<and> (bearing = ''west'' \<longleftrightarrow> 157.5 \<le> angle \<or> angle < - 157.5)
         \<and> (bearing = ''southwest'' \<longleftrightarrow> - 157.5 \<le> angle \<and> angle < - 112.5)
         \<and> (bearing = ''south'' \<longleftrightarrow> - 112.5 \<le> angle \<and> angle < - 67.5)
         \<and> (bearing = ''southeast'' \<longleftrightarrow> - 67.5 \<le> angle \<and> angle < - 22.5)"
    unfolding Let_def l
    using r[of "zb - za" "xb - xa"] s[of "atan2 (zb - za) (xb - xa) * 180 / pi"]
    by (intro conjI) (rule refl, blast+)
  have o: "\<forall>t. - pi < t \<and> t \<le> pi \<longrightarrow> atan2 (sin t) (cos t) = t"
    by (simp add: atan2_sin_cos)
  have d: "directionOfAngle (- 180) = ''west''" "directionOfAngle (- 135) = ''southwest''"
    "directionOfAngle (- 90) = ''south''" "directionOfAngle (- 45) = ''southeast''"
    "directionOfAngle 0 = ''east''" "directionOfAngle 44.9 = ''northeast''"
    "directionOfAngle 45 = ''northeast''" "directionOfAngle 90.1 = ''north''"
    by (simp_all add: directionOfAngle_def)
  show ?thesis
    by (intro conjI g g' f conjunct1[OF r] conjunct2[OF r] p e o d)
       (use s[of a] in blast)+
qed

text \<open>The displacement \<open>(cos (pi / 4), sin (pi / 4))\<close> has the angle of 45 degrees and is
  classified as \<open>northeast\<close>.\<close>

theorem bearing_sectors_partition_witness:
  "- pi < pi / 4 \<and> pi / 4 \<le> pi \<and> atan2 (sin (pi / 4)) (cos (pi / 4)) = pi / 4
   \<and> getDirection (0, 0, 0) (cos (pi / 4), 0, sin (pi / 4)) = ''northeast''"
proof -
  have b: "- pi < pi / 4 \<and> pi / 4 \<le> pi" using pi_gt_zero by simp
  note t = bearing_sectors_partition[where a = 0 and x = 1 and y = 0 and xa = 0 and ya = 0
      and za = 0 and xb = "cos (pi / 4)" and yb = 0 and zb = "sin (pi / 4)"
      and src = "(0, 0, 0)" and dst = "(0, 0, 0)"]
  from t have o: "\<forall>t. - pi < t \<and> t \<le> pi \<longrightarrow> atan2 (sin t) (cos t) = t"
    by (elim conjE) assumption
  then have v: "atan2 (sin (pi / 4)) (cos (pi / 4)) = pi / 4" using b by (elim allE impE)
  from t[unfolded Let_def] have "getDirection (0, 0, 0) (cos (pi / 4), 0, sin (pi / 4))
      = directionOfAngle (atan2 (sin (pi / 4) - 0) (cos (pi / 4) - 0) * 180 / pi)"
    by (elim conjE) assumption
  also have "\<dots> = directionOfAngle (pi / 4 * 180 / pi)" by (simp only: v diff_zero)
  also have "\<dots> = directionOfAngle 45" by simp
  also have "\<dots> = ''northeast''" by (simp add: directionOfAngle_def)
  finally show ?thesis using b v by blast
qed

text \<open>
  Claim C10. For a segment whose horizontal displacement is zero (the two nodes have the
  same \<open>x\<close> and the same \<open>z\<close>), \<open>getDirection\<close> returns \<open>east\<close>, and so the direction of the
  emitted step is \<open>east\<close>, not \<open>forward\<close>.
\<close>

theorem vertical_segment_is_east:
  assumes "fst (position fromNode) = fst (position toNode)"
    and "snd (snd (position fromNode)) = snd (snd (position toNode))"
  shows "getDirection (position fromNode) (position toNode) = ''east''
    \<and> direction (makeStep fromNode toNode) = ''east''"
proof -
  have "getDirection (position fromNode) (position toNode) = ''east''"
    using assms by (cases "position fromNode"; cases "position toNode")
      (simp add: getDirection_def atan2_def directionOfAngle_def)
  then show ?thesis by (simp add: makeStep_def Let_def split: prod.splits)
qed

text \<open>The edges from \<open>STAIRS1\<close> to \<open>STAIRS2\<close> and from \<open>ELEVATOR1\<close> to \<open>ELEVATOR2\<close> of the
  dataset are such segments.\<close>

theorem vertical_segment_is_east_witness:
  "(\<exists>a b. nodeAt navigationNodes ''STAIRS1'' = Some a \<and> nodeAt navigationNodes ''STAIRS2'' = Some b
     \<and> fst (position a) = fst (position b) \<and> snd (snd (position a)) = snd (snd (position b))
     \<and> getDirection (position a) (position b) = ''east''
     \<and> direction (makeStep a b) = ''east'')
   \<and> (\<exists>a b. nodeAt navigationNodes ''ELEVATOR1'' = Some a
     \<and> nodeAt navigationNodes ''ELEVATOR2'' = Some b
     \<and> fst (position a) = fst (position b) \<and> snd (snd (position a)) = snd (snd (position b))
     \<and> getDirection (position a) (position b) = ''east''
     \<and> direction (makeStep a b) = ''east'')"
proof -
  let ?a = "mkNode ''STAIRS1'' (-1, 1, -1) 1 Stairs [''HALL1_1'', ''STAIRS2'']"
  let ?b = "mkNode ''STAIRS2'' (-1, 2, -1) 2 Stairs [''STAIRS1'', ''HALL2_1'']"
  let ?c = "mkNode ''ELEVATOR1'' (3, 1, -1) 1 Elevator [''HALL1_2'', ''ELEVATOR2'']"
  let ?d = "mkNode ''ELEVATOR2'' (3, 2, -1) 2 Elevator [''ELEVATOR1'', ''HALL2_2'']"
  have p: "fst (position ?a) = fst (position ?b)"
    "snd (snd (position ?a)) = snd (snd (position ?b))"
    and q: "fst (position ?c) = fst (position ?d)"
    "snd (snd (position ?c)) = snd (snd (position ?d))"
    by (simp_all add: mkNode_def)
  have n: "nodeAt navigationNodes ''STAIRS1'' = Some ?a"
    "nodeAt navigationNodes ''STAIRS2'' = Some ?b"
    "nodeAt navigationNodes ''ELEVATOR1'' = Some ?c"
    "nodeAt navigationNodes ''ELEVATOR2'' = Some ?d"
    by (simp_all add: nodeAt_def navigationNodes_def)
  show ?thesis
    using vertical_segment_is_east[OF p] vertical_segment_is_east[OF q] n p q by blast
qed

section \<open>The path-node extractor\<close>

lemma set_first_seen: "set (first_seen xs) = set xs"
  by (induction xs rule: first_seen.induct) auto

lemma distinct_first_seen: "distinct (first_seen xs)"
  by (induction xs rule: first_seen.induct) (auto simp: set_first_seen)

lemma foldl_set_add:
  "foldl set_add acc xs = acc @ first_seen (filter (\<lambda>x. x \<notin> set acc) xs)"
proof (induction xs arbitrary: acc)
  case Nil
  then show ?case by simp
next
  case (Cons x xs)
  show ?case
  proof (cases "x \<in> set acc")
    case True
    then show ?thesis using Cons[of acc] by (simp add: set_add_def)
  next
    case False
    have "filter (\<lambda>y. y \<notin> set (acc @ [x])) xs
        = filter (\<lambda>y. y \<noteq> x) (filter (\<lambda>y. y \<notin> set acc) xs)"
      by (induction xs) auto
    then show ?thesis using False Cons[of "acc @ [x]"] by (simp add: set_add_def)
  qed
qed

lemma getPathNodes_foldl:
  "foldl (\<lambda>nodes step. set_add (set_add nodes (step_from step)) (step_to step)) acc steps
     = foldl set_add acc (step_refs steps)"
  by (induction steps arbitrary: acc) (simp_all add: step_refs_def)

text \<open>
  Claim C9. For every instruction list, \<open>getPathNodes\<close> returns the distinct waypoint ids
  referenced as \<open>from\<close> or \<open>to\<close>, in first-seen order and without duplicates; on the empty
  list it returns the empty collection.
\<close>

theorem getPathNodes_first_seen:
  "getPathNodes steps = first_seen (step_refs steps)
    \<and> distinct (getPathNodes steps)
    \<and> set (getPathNodes steps) = step_from ` set steps \<union> step_to ` set steps
    \<and> getPathNodes [] = []"
proof -
  have e: "getPathNodes steps = first_seen (step_refs steps)"
    unfolding getPathNodes_def by (simp add: getPathNodes_foldl foldl_set_add)
  have s: "set (step_refs steps) = step_from ` set steps \<union> step_to ` set steps"
    by (auto simp: step_refs_def)
  show ?thesis using e s by (simp add: distinct_first_seen set_first_seen getPathNodes_def)
qed

section \<open>Correctness of the search on every graph\<close>

subsection \<open>Keys and the initial state\<close>

lemma set_Object_keys: "set (Object_keys g) = fst ` set g"
  by (auto simp: Object_keys_def Let_def)

lemma distinct_Object_keys: "distinct (Object_keys g)"
  by (auto simp: Object_keys_def Let_def distinct_rev)

lemma nodeAt_keys: "nodeAt g k \<noteq> None \<longleftrightarrow> k \<in> set (Object_keys g)"
  by (simp add: nodeAt_def set_Object_keys map_of_eq_None_iff)

lemma foldl_map_upd:
  "foldl (\<lambda>m k. m(k \<mapsto> f k)) m ks k' = (if k' \<in> set ks then Some (f k') else m k')"
  by (induction ks arbitrary: m) auto

lemma init_distances:
  "distances (initState s ks) k
     = (if k \<in> set ks then Some (if k = s then Fin 0 else PosInfinity) else None)"
  by (simp add: initState_def foldl_map_upd)

lemma init_previous:
  "previous (initState s ks) k = (if k \<in> set ks then Some None else None)"
  by (simp add: initState_def foldl_map_upd)

lemma init_unvisited: "unvisited (initState s ks) = ks"
  by (simp add: initState_def)

subsection \<open>The order on distances\<close>

lemma num_less_irrefl: "\<not> num_less a a"
  by (cases a) auto

lemma num_less_trans: "num_less a b \<Longrightarrow> num_less b c \<Longrightarrow> num_less a c"
  by (cases a; cases b; cases c) auto

lemma num_less_le_trans: "num_less a b \<Longrightarrow> \<not> num_less c b \<Longrightarrow> num_less a c"
  by (cases a; cases b; cases c) auto

lemma num_le_trans: "\<not> num_less b a \<Longrightarrow> \<not> num_less c b \<Longrightarrow> \<not> num_less c a"
  by (cases a; cases b; cases c) auto

lemma num_less_PosInfinity: "num_less a PosInfinity \<longleftrightarrow> (\<exists>x. a = Fin x)"
  by (cases a) auto

subsection \<open>The scan for the minimum\<close>

lemma selectMin_result:
  "selectMin d xs (cur, mn) = (r, m) \<Longrightarrow>
     (r = cur \<and> m = mn \<or> (\<exists>c\<in>set xs. r = Some c \<and> d c = Some m \<and> num_less m mn))
     \<and> (\<forall>x\<in>set xs. \<forall>y. d x = Some y \<longrightarrow> \<not> num_less y m)
     \<and> \<not> num_less mn m"
proof (induction xs arbitrary: cur mn)
  case Nil
  then show ?case by (simp add: num_less_irrefl)
next
  case (Cons x xs)
  show ?case
  proof (cases "\<exists>y. d x = Some y \<and> num_less y mn")
    case True
    then obtain y where y: "d x = Some y" "num_less y mn" by blast
    then have "selectMin d xs (Some x, y) = (r, m)" using Cons.prems by simp
    from Cons.IH[OF this] y show ?thesis
      by (auto intro: num_less_trans dest: num_less_le_trans)
  next
    case False
    then have "selectMin d xs (cur, mn) = (r, m)"
      using Cons.prems by (auto split: option.splits if_splits)
    from Cons.IH[OF this] False show ?thesis
      by (auto dest: num_le_trans)
  qed
qed

lemma selectMin_None:
  assumes "selectMin d xs (None, PosInfinity) = (None, m)" and "x \<in> set xs" and "d x = Some y"
  shows "y = PosInfinity"
  using selectMin_result[OF assms(1)] assms(2,3) by (cases y) auto

lemma selectMin_Some:
  assumes "selectMin d xs (None, PosInfinity) = (Some c, m)"
  shows "c \<in> set xs" and "d c = Some m" and "\<exists>x. m = Fin x"
    and "\<And>x y. x \<in> set xs \<Longrightarrow> d x = Some y \<Longrightarrow> \<not> num_less y m"
  using selectMin_result[OF assms] by (auto simp: num_less_PosInfinity)

lemma selectMin_all_infinite:
  "(\<forall>x\<in>set xs. d x = Some PosInfinity \<or> d x = None) \<Longrightarrow> selectMin d xs acc = acc"
  by (induction d xs acc rule: selectMin.induct) (auto split: option.splits)

lemma selectMin_start_only:
  assumes "\<forall>x\<in>set xs. d x = Some (if x = s then Fin 0 else PosInfinity)"
  shows "selectMin d xs (Some s, Fin 0) = (Some s, Fin 0)"
    and "s \<in> set xs \<Longrightarrow> selectMin d xs (None, PosInfinity) = (Some s, Fin 0)"
proof -
  show a: "selectMin d xs (Some s, Fin 0) = (Some s, Fin 0)" using assms
    by (induction xs) auto
  show "s \<in> set xs \<Longrightarrow> selectMin d xs (None, PosInfinity) = (Some s, Fin 0)" using assms
  proof (induction xs)
    case Nil
    then show ?case by simp
  next
    case (Cons x xs)
    show ?case
    proof (cases "x = s")
      case True
      have "selectMin d xs (Some s, Fin 0) = (Some s, Fin 0)"
        using Cons.prems(2) 
        by (induction xs) auto
      then show ?thesis using True Cons.prems by simp
    next
      case False
      then show ?thesis using Cons by simp
    qed
  qed
qed

subsection \<open>The update of the neighbours\<close>

lemma relax_no_error:
  "set (unvisited st) \<subseteq> {k. nodeAt g k \<noteq> None} \<Longrightarrow> \<exists>st'. relax g c node ns st = Inr st'"
  by (induction g c node ns st rule: relax.induct)
     (auto split: option.splits simp: Let_def)

lemma relax_Cons_cases:
  assumes "relax g c node (n # ns) st = Inr st'"
  obtains (skip) "relax g c node ns st = Inr st'"
      and "n \<notin> set (unvisited st) \<or> distances st c = None \<or> distances st n = None
           \<or> (\<exists>nb dc dn. nodeAt g n = Some nb \<and> distances st c = Some dc \<and> distances st n = Some dn
                \<and> \<not> num_less (num_add dc (calculateDistance (position node) (position nb))) dn)"
    | (update) nb dc dn where "n \<in> set (unvisited st)" "nodeAt g n = Some nb"
      "distances st c = Some dc" "distances st n = Some dn"
      "num_less (num_add dc (calculateDistance (position node) (position nb))) dn"
      "relax g c node ns
         (st\<lparr>distances := (distances st)(n \<mapsto> num_add dc (calculateDistance (position node) (position nb))),
             previous := (previous st)(n \<mapsto> Some c)\<rparr>) = Inr st'"
  using assms by (auto split: if_splits option.splits simp: Let_def)

lemma relax_frame:
  assumes "relax g c node ns st = Inr st'"
    and "v \<notin> set ns \<or> v \<notin> set (unvisited st)"
  shows "distances st' v = distances st v \<and> previous st' v = previous st v"
  using assms
proof (induction ns arbitrary: st)
  case Nil
  then show ?case by simp
next
  case (Cons n ns)
  from Cons.prems(1) show ?case
  proof (cases rule: relax_Cons_cases)
    case skip
    then show ?thesis using Cons.IH[of st] Cons.prems(2) by auto
  next
    case (update nb dc dn)
    let ?st1 = "st\<lparr>distances := (distances st)(n \<mapsto> num_add dc (calculateDistance (position node) (position nb))),
             previous := (previous st)(n \<mapsto> Some c)\<rparr>"
    have "v \<noteq> n" using update(1) Cons.prems(2) by auto
    moreover have "distances st' v = distances ?st1 v \<and> previous st' v = previous ?st1 v"
      using Cons.IH[OF update(6)] Cons.prems(2) by auto
    ultimately show ?thesis by simp
  qed
qed

lemma relax_effect:
  assumes "relax g c node ns st = Inr st'"
    and "distances st c = Some dc" and "c \<notin> set (unvisited st)"
  shows "distances st' v = distances st v \<and> previous st' v = previous st v
       \<or> (\<exists>nb dv. v \<in> set ns \<and> v \<in> set (unvisited st) \<and> nodeAt g v = Some nb
            \<and> distances st v = Some dv
            \<and> num_less (num_add dc (calculateDistance (position node) (position nb))) dv
            \<and> distances st' v = Some (num_add dc (calculateDistance (position node) (position nb)))
            \<and> previous st' v = Some (Some c))"
  using assms
proof (induction ns arbitrary: st)
  case Nil
  then show ?case by simp
next
  case (Cons n ns)
  from Cons.prems(1) show ?case
  proof (cases rule: relax_Cons_cases)
    case skip
    then show ?thesis using Cons.IH[of st] Cons.prems(2,3) by auto
  next
    case (update nb dc' dn)
    let ?new = "num_add dc (calculateDistance (position node) (position nb))"
    let ?st1 = "st\<lparr>distances := (distances st)(n \<mapsto> ?new),
             previous := (previous st)(n \<mapsto> Some c)\<rparr>"
    have dc: "dc' = dc" using update(3) Cons.prems(2) by simp
    have cn: "c \<noteq> n" using update(1) Cons.prems(3) by auto
    have r: "relax g c node ns ?st1 = Inr st'" using update(6) dc by simp
    have ih: "distances st' v = distances ?st1 v \<and> previous st' v = previous ?st1 v
       \<or> (\<exists>nb dv. v \<in> set ns \<and> v \<in> set (unvisited ?st1) \<and> nodeAt g v = Some nb
            \<and> distances ?st1 v = Some dv
            \<and> num_less (num_add dc (calculateDistance (position node) (position nb))) dv
            \<and> distances st' v = Some (num_add dc (calculateDistance (position node) (position nb)))
            \<and> previous st' v = Some (Some c))"
      using Cons.IH[OF r] Cons.prems(2,3) cn by simp
    show ?thesis
    proof (cases "v = n")
      case True
      from ih show ?thesis
      proof
        assume "distances st' v = distances ?st1 v \<and> previous st' v = previous ?st1 v"
        then show ?thesis using True update dc by auto
      next
        assume "\<exists>nb dv. v \<in> set ns \<and> v \<in> set (unvisited ?st1) \<and> nodeAt g v = Some nb
            \<and> distances ?st1 v = Some dv
            \<and> num_less (num_add dc (calculateDistance (position node) (position nb))) dv
            \<and> distances st' v = Some (num_add dc (calculateDistance (position node) (position nb)))
            \<and> previous st' v = Some (Some c)"
        then have False using True update(2) by (auto simp: num_less_irrefl)
        then show ?thesis ..
      qed
    next
      case False
      then show ?thesis using ih by auto
    qed
  qed
qed

lemma relax_bound:
  assumes "relax g c node ns st = Inr st'"
    and "distances st c = Some dc" and "c \<notin> set (unvisited st)"
    and "v \<in> set ns" and "v \<in> set (unvisited st)" and "nodeAt g v = Some nb"
    and "distances st' v = Some dv'"
  shows "\<not> num_less (num_add dc (calculateDistance (position node) (position nb))) dv'"
  using assms
proof (induction ns arbitrary: st)
  case Nil
  then show ?case by simp
next
  case (Cons n ns)
  let ?new = "num_add dc (calculateDistance (position node) (position nb))"
  from Cons.prems(1) show ?case
  proof (cases rule: relax_Cons_cases)
    case skip
    show ?thesis
    proof (cases "v \<in> set ns")
      case True
      then show ?thesis using Cons.IH[OF skip(1)] Cons.prems by simp
    next
      case False
      then have vn: "v = n" using Cons.prems(4) by simp
      have "distances st' v = distances st v"
        using relax_frame[OF skip(1), of v] False by simp
      then show ?thesis using skip(2) vn Cons.prems by auto
    qed
  next
    case (update nb' dc' dn)
    let ?st1 = "st\<lparr>distances := (distances st)(n \<mapsto> num_add dc' (calculateDistance (position node) (position nb'))),
             previous := (previous st)(n \<mapsto> Some c)\<rparr>"
    have dc: "dc' = dc" using update(3) Cons.prems(2) by simp
    have cn: "c \<noteq> n" using update(1) Cons.prems(3) by auto
    show ?thesis
    proof (cases "v \<in> set ns")
      case True
      then show ?thesis using Cons.IH[OF update(6)] Cons.prems cn by simp
    next
      case False
      then have vn: "v = n" using Cons.prems(4) by simp
      have "distances st' v = distances ?st1 v"
        using relax_frame[OF update(6), of v] False by simp
      then show ?thesis using vn Cons.prems update(2) dc by (auto simp: num_less_irrefl)
    qed
  qed
qed

subsection \<open>Paths\<close>

lemma calculateDistance_nonneg: "0 \<le> calculateDistance a b"
  by (simp add: calculateDistance_def split: prod.splits)

lemma edge_length_nonneg: "0 \<le> edge_length g u v"
  by (simp add: edge_length_def calculateDistance_nonneg split: option.splits)

lemma path_length_nonneg: "0 \<le> path_length g p"
  by (induction g p rule: path_length.induct) (simp_all add: edge_length_nonneg)

lemma edge_nodes: "edge g u v \<Longrightarrow> nodeAt g u \<noteq> None \<and> nodeAt g v \<noteq> None"
  by (auto simp: edge_def split: option.splits)

lemma valid_path_snoc:
  "p \<noteq> [] \<Longrightarrow> valid_path g (p @ [v]) = (valid_path g p \<and> edge g (last p) v)"
  by (induction g p rule: valid_path.induct) (auto dest: edge_nodes)

lemma path_length_snoc:
  "p \<noteq> [] \<Longrightarrow> path_length g (p @ [v]) = path_length g p + edge_length g (last p) v"
  by (induction g p rule: path_length.induct) auto

lemma valid_path_nodes: "valid_path g p \<Longrightarrow> x \<in> set p \<Longrightarrow> nodeAt g x \<noteq> None"
  by (induction g p rule: valid_path.induct) (auto dest: edge_nodes)

lemma tree_path_valid:
  "tree_path g prev s p \<Longrightarrow> valid_path g p \<and> p \<noteq> [] \<and> hd p = s"
  by (induction rule: tree_path.induct) (auto simp: valid_path_snoc)

lemma tree_path_cong:
  "tree_path g prev s p \<Longrightarrow> (\<And>x. x \<in> set p \<Longrightarrow> prev' x = prev x) \<Longrightarrow> tree_path g prev' s p"
proof (induction rule: tree_path.induct)
  case root
  then show ?case by (simp add: tree_path.root)
next
  case (child p v)
  then have "tree_path g prev' s p" by simp
  moreover have "prev' v = Some (Some (last p))" using child by simp
  ultimately show ?case using child.hyps(3) by (rule tree_path.child)
qed

lemma reconstruct_Null [simp]: "reconstruct prev Null path = Some path"
  by (subst reconstruct.simps) simp

lemma reconstruct_Str:
  "reconstruct prev (Str s) path = reconstruct prev (readPrevious prev (Str s)) (Str s # path)"
  by (subst reconstruct.simps) simp

lemma reconstruct_tree_path:
  "tree_path g prev s p \<Longrightarrow> reconstruct prev (Str (last p)) acc = Some (map Str p @ acc)"
proof (induction arbitrary: acc rule: tree_path.induct)
  case root
  then show ?case by (simp add: reconstruct_Str readPrevious_def)
next
  case (child p v)
  have "reconstruct prev (Str v) acc = reconstruct prev (Str (last p)) (Str v # acc)"
    using child.hyps(2) by (simp add: reconstruct_Str readPrevious_def)
  then show ?case using child.IH[of "Str v # acc"] by simp
qed

lemma search_inv_init: "search_inv g s (initState s (Object_keys g))"
proof -
  let ?st = "initState s (Object_keys g)"
  have "\<exists>p. tree_path g (previous ?st) s p \<and> last p = v \<and> path_length g p = d
                \<and> set (butlast p) \<inter> set (unvisited ?st) = {}"
    if "distances ?st v = Some (Fin d)" for v d
  proof -
    from that have v: "v = s" "d = 0" "s \<in> set (Object_keys g)"
      by (auto simp: init_distances split: if_splits)
    have "tree_path g (previous ?st) s [s]"
      using v(3) nodeAt_keys[of g s] by (intro tree_path.root) (simp_all add: init_previous)
    then show ?thesis using v by (intro exI[of _ "[s]"]) simp
  qed
  moreover have "previous ?st v = Some None" if "distances ?st v = Some PosInfinity" for v
    using that by (auto simp: init_distances init_previous split: if_splits)
  moreover have "dom (distances ?st) = set (Object_keys g)"
    by (auto simp: init_distances dom_def)
  moreover have "dom (previous ?st) = set (Object_keys g)"
    by (auto simp: init_previous dom_def)
  ultimately show ?thesis
    unfolding search_inv_def by (simp add: init_unvisited)
qed

lemma search_opt_init:
  "s \<in> set (Object_keys g) \<Longrightarrow> search_opt g s (initState s (Object_keys g))"
  by (simp add: search_opt_def init_distances init_unvisited)

subsection \<open>One iteration keeps the invariants\<close>

lemma set_path_last: "p \<noteq> [] \<Longrightarrow> x \<in> set p \<Longrightarrow> x \<in> set (butlast p) \<or> x = last p"
proof -
  assume "p \<noteq> []" "x \<in> set p"
  then have "x \<in> set (butlast p @ [last p])" by simp
  then show ?thesis by auto
qed

text \<open>What one iteration of the loop does to the state, in the terms of the state before.\<close>

lemma search_step:
  assumes inv: "search_inv g s st"
    and sel: "selectMin (distances st) (unvisited st) (None, PosInfinity) = (Some c, m)"
    and node: "nodeAt g c = Some node"
    and rel: "relax g c node (connections node) (st\<lparr>unvisited := removeAll c (unvisited st)\<rparr>)
              = Inr st2"
  shows "\<exists>dc. c \<in> set (unvisited st) \<and> distances st c = Some (Fin dc) \<and> m = Fin dc
    \<and> (\<forall>x y. x \<in> set (unvisited st) \<longrightarrow> distances st x = Some y \<longrightarrow> \<not> num_less y (Fin dc))
    \<and> unvisited st2 = removeAll c (unvisited st)
    \<and> (\<forall>x. x \<notin> set (unvisited st) \<or> x = c
           \<longrightarrow> distances st2 x = distances st x \<and> previous st2 x = previous st x)
    \<and> (\<forall>v. distances st2 v = distances st v \<and> previous st2 v = previous st v
           \<or> (\<exists>dv. v \<in> set (unvisited st) \<and> v \<noteq> c \<and> edge g c v \<and> distances st v = Some dv
                \<and> num_less (Fin (dc + edge_length g c v)) dv
                \<and> distances st2 v = Some (Fin (dc + edge_length g c v))
                \<and> previous st2 v = Some (Some c)))
    \<and> (\<forall>v dv'. edge g c v \<longrightarrow> v \<in> set (unvisited st) \<longrightarrow> v \<noteq> c \<longrightarrow> distances st2 v = Some dv'
           \<longrightarrow> \<not> num_less (Fin (dc + edge_length g c v)) dv')"
proof -
  let ?st1 = "st\<lparr>unvisited := removeAll c (unvisited st)\<rparr>"
  from selectMin_Some[OF sel] obtain dc where c: "c \<in> set (unvisited st)"
    "distances st c = Some (Fin dc)" "m = Fin dc"
    and mn: "\<And>x y. x \<in> set (unvisited st) \<Longrightarrow> distances st x = Some y \<Longrightarrow> \<not> num_less y (Fin dc)"
    by auto
  have u2: "unvisited st2 = removeAll c (unvisited st)" using relax_unvisited[OF rel] by simp
  have c1: "c \<notin> set (unvisited ?st1)" by simp
  have d1: "distances ?st1 c = Some (Fin dc)" using c by simp
  have keep: "distances st2 x = distances st x \<and> previous st2 x = previous st x"
    if "x \<notin> set (unvisited st) \<or> x = c" for x
    using relax_frame[OF rel, of x] that by auto
  have len: "edge_length g c v = calculateDistance (position node) (position nb)"
    if "nodeAt g v = Some nb" for v nb
    using that node by (simp add: edge_length_def)
  have edge: "edge g c v" if "v \<in> set (connections node)" "nodeAt g v = Some nb" for v nb
    using that node by (simp add: edge_def)
  have eff: "distances st2 v = distances st v \<and> previous st2 v = previous st v
           \<or> (\<exists>dv. v \<in> set (unvisited st) \<and> v \<noteq> c \<and> edge g c v \<and> distances st v = Some dv
                \<and> num_less (Fin (dc + edge_length g c v)) dv
                \<and> distances st2 v = Some (Fin (dc + edge_length g c v))
                \<and> previous st2 v = Some (Some c))" for v
    using relax_effect[OF rel d1 c1, of v] len[of v] edge[of v] by auto
  have bound: "\<not> num_less (Fin (dc + edge_length g c v)) dv'"
    if "edge g c v" "v \<in> set (unvisited st)" "v \<noteq> c" "distances st2 v = Some dv'" for v dv'
  proof -
    from that(1) node obtain nb where nb: "v \<in> set (connections node)" "nodeAt g v = Some nb"
      by (auto simp: edge_def)
    have "v \<in> set (unvisited ?st1)" using that(2,3) by simp
    from relax_bound[OF rel d1 c1 nb(1) this nb(2) that(4)] show ?thesis
      using len[OF nb(2)] by simp
  qed
  show ?thesis
    apply (rule exI[of _ dc])
    apply (intro conjI allI impI)
    using c mn u2 keep eff bound by blast+
qed

lemma search_inv_step:
  assumes inv: "search_inv g s st"
    and sel: "selectMin (distances st) (unvisited st) (None, PosInfinity) = (Some c, m)"
    and node: "nodeAt g c = Some node"
    and rel: "relax g c node (connections node) (st\<lparr>unvisited := removeAll c (unvisited st)\<rparr>)
              = Inr st2"
  shows "search_inv g s st2"
proof -
  from inv have sub: "set (unvisited st) \<subseteq> set (Object_keys g)"
    and domd: "dom (distances st) = set (Object_keys g)"
    and domp: "dom (previous st) = set (Object_keys g)"
    and tree: "\<And>v d. distances st v = Some (Fin d) \<Longrightarrow>
           \<exists>p. tree_path g (previous st) s p \<and> last p = v \<and> path_length g p = d
                \<and> set (butlast p) \<inter> set (unvisited st) = {}"
    and inf: "\<And>v. distances st v = Some PosInfinity \<Longrightarrow> previous st v = Some None"
    unfolding search_inv_def by blast+
  from search_step[OF inv sel node rel] obtain dc where
    c: "c \<in> set (unvisited st)" "distances st c = Some (Fin dc)"
    and u2: "unvisited st2 = removeAll c (unvisited st)"
    and keep': "\<forall>x. x \<notin> set (unvisited st) \<or> x = c
           \<longrightarrow> distances st2 x = distances st x \<and> previous st2 x = previous st x"
    and eff': "\<forall>v. distances st2 v = distances st v \<and> previous st2 v = previous st v
           \<or> (\<exists>dv. v \<in> set (unvisited st) \<and> v \<noteq> c \<and> edge g c v \<and> distances st v = Some dv
                \<and> num_less (Fin (dc + edge_length g c v)) dv
                \<and> distances st2 v = Some (Fin (dc + edge_length g c v))
                \<and> previous st2 v = Some (Some c))"
    by (elim exE conjE)
  have keep: "distances st2 x = distances st x \<and> previous st2 x = previous st x"
    if "x \<notin> set (unvisited st) \<or> x = c" for x
    using keep' that by blast
  have eff: "distances st2 v = distances st v \<and> previous st2 v = previous st v
           \<or> (\<exists>dv. v \<in> set (unvisited st) \<and> v \<noteq> c \<and> edge g c v \<and> distances st v = Some dv
                \<and> num_less (Fin (dc + edge_length g c v)) dv
                \<and> distances st2 v = Some (Fin (dc + edge_length g c v))
                \<and> previous st2 v = Some (Some c))" for v
    using eff' by blast
  have same_path: "tree_path g (previous st2) s p"
    if "tree_path g (previous st) s p" "set (butlast p) \<inter> set (unvisited st) = {}"
      "previous st2 (last p) = previous st (last p)" for p
  proof (rule tree_path_cong[OF that(1)])
    fix x assume x: "x \<in> set p"
    have "p \<noteq> []" using tree_path_valid[OF that(1)] by simp
    from set_path_last[OF this x] show "previous st2 x = previous st x"
      using that(2,3) keep[of x] by auto
  qed
  have 1: "set (unvisited st2) \<subseteq> set (Object_keys g)" using sub u2 by auto
  have 2: "dom (distances st2) = set (Object_keys g)"
  proof -
    have "distances st2 v = None \<longleftrightarrow> distances st v = None" for v
      using eff[of v] by auto
    then have "dom (distances st2) = dom (distances st)" by (auto simp: dom_def)
    then show ?thesis using domd by simp
  qed
  have 3: "dom (previous st2) = set (Object_keys g)"
  proof -
    have pk: "previous st v \<noteq> None" if "v \<in> set (unvisited st)" for v
      using that sub domp by blast
    have "previous st2 v = None \<longleftrightarrow> previous st v = None" for v
      using eff[of v] pk[of v] by auto
    then have "dom (previous st2) = dom (previous st)" by (auto simp: dom_def)
    then show ?thesis using domp by simp
  qed
  have 4: "\<exists>p. tree_path g (previous st2) s p \<and> last p = v \<and> path_length g p = d
                \<and> set (butlast p) \<inter> set (unvisited st2) = {}"
    if v: "distances st2 v = Some (Fin d)" for v d
    using eff[of v]
  proof
    assume same: "distances st2 v = distances st v \<and> previous st2 v = previous st v"
    then obtain p where p: "tree_path g (previous st) s p" "last p = v" "path_length g p = d"
      "set (butlast p) \<inter> set (unvisited st) = {}"
      using tree[of v d] v by auto
    have "tree_path g (previous st2) s p" using same_path[OF p(1) p(4)] same p(2) by simp
    then show ?thesis using p u2 by auto
  next
    assume "\<exists>dv. v \<in> set (unvisited st) \<and> v \<noteq> c \<and> edge g c v \<and> distances st v = Some dv
                \<and> num_less (Fin (dc + edge_length g c v)) dv
                \<and> distances st2 v = Some (Fin (dc + edge_length g c v))
                \<and> previous st2 v = Some (Some c)"
    then have e: "edge g c v" and d: "d = dc + edge_length g c v"
      and pv: "previous st2 v = Some (Some c)"
      using v by auto
    obtain pc where pc: "tree_path g (previous st) s pc" "last pc = c" "path_length g pc = dc"
      "set (butlast pc) \<inter> set (unvisited st) = {}"
      using tree[OF c(2)] by auto
    have ne: "pc \<noteq> []" using tree_path_valid[OF pc(1)] by simp
    have t: "tree_path g (previous st2) s pc"
      using same_path[OF pc(1) pc(4)] keep[of c] pc(2) by simp
    have "tree_path g (previous st2) s (pc @ [v])"
      using t pv e pc(2) by (intro tree_path.child) simp_all
    moreover have "path_length g (pc @ [v]) = d"
      using path_length_snoc[OF ne, of g v] pc(2,3) d by simp
    moreover have "set pc \<inter> set (unvisited st2) = {}"
    proof -
      have "x \<notin> set (unvisited st2)" if "x \<in> set pc" for x
        using set_path_last[OF ne that] pc(2,4) u2 by auto
      then show ?thesis by auto
    qed
    ultimately show ?thesis by (intro exI[of _ "pc @ [v]"]) simp
  qed
  have 5: "previous st2 v = Some None" if "distances st2 v = Some PosInfinity" for v
    using eff[of v] that inf[of v] by auto
  show ?thesis unfolding search_inv_def using 1 2 3 4 5 by blast
qed

lemma search_opt_step:
  assumes inv: "search_inv g s st" and opt: "search_opt g s st"
    and sel: "selectMin (distances st) (unvisited st) (None, PosInfinity) = (Some c, m)"
    and node: "nodeAt g c = Some node"
    and rel: "relax g c node (connections node) (st\<lparr>unvisited := removeAll c (unvisited st)\<rparr>)
              = Inr st2"
  shows "search_opt g s st2"
proof -
  from inv have sub: "set (unvisited st) \<subseteq> set (Object_keys g)"
    and domd: "dom (distances st) = set (Object_keys g)"
    and tree: "\<And>v d. distances st v = Some (Fin d) \<Longrightarrow>
           \<exists>p. tree_path g (previous st) s p \<and> last p = v \<and> path_length g p = d
                \<and> set (butlast p) \<inter> set (unvisited st) = {}"
    unfolding search_inv_def by blast+
  from opt have s0: "distances st s = Some (Fin 0)"
    and B: "\<And>u v. u \<in> set (Object_keys g) \<Longrightarrow> u \<notin> set (unvisited st) \<Longrightarrow> edge g u v \<Longrightarrow>
           \<exists>du dv. distances st u = Some (Fin du) \<and> distances st v = Some (Fin dv)
              \<and> dv \<le> du + edge_length g u v"
    and C: "\<And>u v dv. u \<in> set (Object_keys g) \<Longrightarrow> u \<notin> set (unvisited st) \<Longrightarrow> v \<in> set (unvisited st)
            \<Longrightarrow> distances st v = Some (Fin dv) \<Longrightarrow>
           \<exists>du. distances st u = Some (Fin du) \<and> du \<le> dv"
    unfolding search_opt_def by blast+
  from search_step[OF inv sel node rel] obtain dc where
    c: "c \<in> set (unvisited st)" "distances st c = Some (Fin dc)"
    and mn': "\<forall>x y. x \<in> set (unvisited st) \<longrightarrow> distances st x = Some y \<longrightarrow> \<not> num_less y (Fin dc)"
    and u2: "unvisited st2 = removeAll c (unvisited st)"
    and keep': "\<forall>x. x \<notin> set (unvisited st) \<or> x = c
           \<longrightarrow> distances st2 x = distances st x \<and> previous st2 x = previous st x"
    and eff': "\<forall>v. distances st2 v = distances st v \<and> previous st2 v = previous st v
           \<or> (\<exists>dv. v \<in> set (unvisited st) \<and> v \<noteq> c \<and> edge g c v \<and> distances st v = Some dv
                \<and> num_less (Fin (dc + edge_length g c v)) dv
                \<and> distances st2 v = Some (Fin (dc + edge_length g c v))
                \<and> previous st2 v = Some (Some c))"
    and bound': "\<forall>v dv'. edge g c v \<longrightarrow> v \<in> set (unvisited st) \<longrightarrow> v \<noteq> c \<longrightarrow> distances st2 v = Some dv'
           \<longrightarrow> \<not> num_less (Fin (dc + edge_length g c v)) dv'"
    by (elim exE conjE)
  have keep: "distances st2 x = distances st x"
    if "x \<notin> set (unvisited st) \<or> x = c" for x
    using keep' that by blast
  have eff: "distances st2 v = distances st v
           \<or> (\<exists>dv. v \<in> set (unvisited st) \<and> v \<noteq> c \<and> distances st v = Some dv
                \<and> num_less (Fin (dc + edge_length g c v)) dv
                \<and> distances st2 v = Some (Fin (dc + edge_length g c v)))" for v
    using eff' by blast
  have mn: "dc \<le> d" if "x \<in> set (unvisited st)" "distances st x = Some (Fin d)" for x d
    using mn' that by fastforce
  have dc0: "0 \<le> dc" using tree[OF c(2)] path_length_nonneg[of g] by auto
  have el: "0 \<le> edge_length g u v" for u v by (rule edge_length_nonneg)
  have c2: "distances st2 c = Some (Fin dc)" using keep[of c] c by simp
  have cK: "c \<in> set (Object_keys g)" using c sub by auto
  have mono: "\<exists>d'. distances st2 v = Some (Fin d') \<and> d' \<le> d" if "distances st v = Some (Fin d)" for v d
    using eff[of v] that by auto
  have 1: "distances st2 s = Some (Fin 0)"
    using eff[of s] s0 dc0 el[of c s] by auto
  have 2: "\<exists>du dv. distances st2 u = Some (Fin du) \<and> distances st2 v = Some (Fin dv)
              \<and> dv \<le> du + edge_length g u v"
    if u: "u \<in> set (Object_keys g)" "u \<notin> set (unvisited st2)" and e: "edge g u v" for u v
  proof (cases "u = c")
    case False
    then have u': "u \<notin> set (unvisited st)" using u(2) u2 by auto
    from B[OF u(1) u' e] obtain du dv where d: "distances st u = Some (Fin du)"
      "distances st v = Some (Fin dv)" "dv \<le> du + edge_length g u v" by blast
    from mono[OF d(2)] obtain dv' where "distances st2 v = Some (Fin dv')" "dv' \<le> dv" by blast
    then show ?thesis using d keep[of u] u' by auto
  next
    case True
    have vK: "v \<in> set (Object_keys g)" using edge_nodes[OF e] nodeAt_keys[of g v] by simp
    consider "v = c" | "v \<noteq> c" "v \<in> set (unvisited st)" | "v \<notin> set (unvisited st)" by blast
    then show ?thesis
    proof cases
      case 1
      then show ?thesis using True c2 el[of c c] by auto
    next
      case 2
      have "distances st v \<noteq> None" using vK domd by blast
      then obtain dv' where dv': "distances st2 v = Some dv'" using eff[of v] by auto
      have "\<not> num_less (Fin (dc + edge_length g c v)) dv'"
        using bound' e True 2 dv' by blast
      then obtain x where "dv' = Fin x" "x \<le> dc + edge_length g c v"
        by (cases dv') auto
      then show ?thesis using True c2 dv' by auto
    next
      case 3
      from C[OF vK 3 c(1) c(2)] obtain dv where "distances st v = Some (Fin dv)" "dv \<le> dc"
        by blast
      then show ?thesis using True c2 keep[of v] 3 el[of c v] by auto
    qed
  qed
  have 3: "\<exists>du. distances st2 u = Some (Fin du) \<and> du \<le> dv"
    if u: "u \<in> set (Object_keys g)" "u \<notin> set (unvisited st2)" and v: "v \<in> set (unvisited st2)"
      "distances st2 v = Some (Fin dv)" for u v dv
  proof -
    have v': "v \<in> set (unvisited st)" "v \<noteq> c" using v(1) u2 by auto
    have le: "dc \<le> dv" using eff[of v] v(2) mn[OF v'(1)] el[of c v] by auto
    show ?thesis
    proof (cases "u = c")
      case True
      then show ?thesis using c2 le by auto
    next
      case False
      then have u': "u \<notin> set (unvisited st)" using u(2) u2 by auto
      from C[OF u(1) u' c(1) c(2)] obtain du where "distances st u = Some (Fin du)" "du \<le> dc"
        by blast
      then show ?thesis using keep[of u] u' le by auto
    qed
  qed
  show ?thesis unfolding search_opt_def using 1 2 3 by blast
qed

lemma walk_bound:
  assumes opt: "search_opt g s st"
  shows "valid_path g p \<Longrightarrow> hd p = s \<Longrightarrow>
     (\<exists>d. distances st (last p) = Some (Fin d) \<and> d \<le> path_length g p)
     \<or> (\<exists>y d. y \<in> set (unvisited st) \<and> distances st y = Some (Fin d) \<and> d \<le> path_length g p)"
proof (induction p rule: rev_induct)
  case Nil
  then show ?case by simp
next
  case (snoc v q)
  from opt have s0: "distances st s = Some (Fin 0)"
    and B: "\<And>u v. u \<in> set (Object_keys g) \<Longrightarrow> u \<notin> set (unvisited st) \<Longrightarrow> edge g u v \<Longrightarrow>
           \<exists>du dv. distances st u = Some (Fin du) \<and> distances st v = Some (Fin dv)
              \<and> dv \<le> du + edge_length g u v"
    unfolding search_opt_def by blast+
  show ?case
  proof (cases "q = []")
    case True
    then show ?thesis using snoc.prems s0 by simp
  next
    case False
    then have vq: "valid_path g q" and e: "edge g (last q) v" and hq: "hd q = s"
      using snoc.prems by (simp_all add: valid_path_snoc)
    have len: "path_length g (q @ [v]) = path_length g q + edge_length g (last q) v"
      using False by (rule path_length_snoc)
    have el: "0 \<le> edge_length g (last q) v" by (rule edge_length_nonneg)
    from snoc.IH[OF vq hq] show ?thesis
    proof
      assume "\<exists>d. distances st (last q) = Some (Fin d) \<and> d \<le> path_length g q"
      then obtain d where d: "distances st (last q) = Some (Fin d)" "d \<le> path_length g q" by blast
      have uK: "last q \<in> set (Object_keys g)" using edge_nodes[OF e] nodeAt_keys[of g "last q"] by simp
      show ?thesis
      proof (cases "last q \<in> set (unvisited st)")
        case True
        then show ?thesis using d len el by (intro disjI2 exI[of _ "last q"] exI[of _ d]) simp
      next
        case False
        from B[OF uK False e] d show ?thesis using len by auto
      qed
    next
      assume "\<exists>y d. y \<in> set (unvisited st) \<and> distances st y = Some (Fin d) \<and> d \<le> path_length g q"
      then show ?thesis using len el by fastforce
    qed
  qed
qed

lemma search_inv_remove:
  "search_inv g s st \<Longrightarrow> search_inv g s (st\<lparr>unvisited := removeAll c (unvisited st)\<rparr>)"
  unfolding search_inv_def by (simp, blast)

lemma dijkstra_result:
  assumes "search_inv g s st"
  shows "\<exists>st'. dijkstra g e st = Inr st' \<and> search_inv g s st'
     \<and> (search_opt g s st \<longrightarrow> [] \<notin> set (Object_keys g) \<longrightarrow>
          (\<forall>p. valid_path g p \<and> hd p = s \<and> last p = e \<longrightarrow>
             (\<exists>d. distances st' e = Some (Fin d) \<and> d \<le> path_length g p)))"
  using assms
proof (induction "length (unvisited st)" arbitrary: st rule: less_induct)
  case less
  note inv = less.prems
  from inv have sub: "set (unvisited st) \<subseteq> set (Object_keys g)"
    and domd: "dom (distances st) = set (Object_keys g)"
    unfolding search_inv_def by blast+
  let ?goal = "\<lambda>st'. search_opt g s st \<longrightarrow> [] \<notin> set (Object_keys g) \<longrightarrow>
          (\<forall>p. valid_path g p \<and> hd p = s \<and> last p = e \<longrightarrow>
             (\<exists>d. distances st' e = Some (Fin d) \<and> d \<le> path_length g p))"
  show ?case
  proof (cases "unvisited st = []")
    case True
    then have r: "dijkstra g e st = Inr st" by (subst dijkstra.simps) simp
    have "?goal st" using walk_bound[of g s st] True by fastforce
    then show ?thesis using r inv by blast
  next
    case ne: False
    obtain r m where sel: "selectMin (distances st) (unvisited st) (None, PosInfinity) = (r, m)"
      by (cases "selectMin (distances st) (unvisited st) (None, PosInfinity)")
    show ?thesis
    proof (cases r)
      case None
      then have r: "dijkstra g e st = Inr st" using ne sel by (subst dijkstra.simps) simp
      have inf: "distances st y \<noteq> Some (Fin d)" if "y \<in> set (unvisited st)" for y d
        using selectMin_None[of "distances st" "unvisited st" m y] sel None that by auto
      have "?goal st" using walk_bound[of g s st] inf by blast
      then show ?thesis using r inv by blast
    next
      case (Some c)
      then have sel: "selectMin (distances st) (unvisited st) (None, PosInfinity) = (Some c, m)"
        using sel by simp
      from selectMin_Some[OF sel] obtain dc where c: "c \<in> set (unvisited st)"
        "distances st c = Some (Fin dc)"
        and mn: "\<And>x y. x \<in> set (unvisited st) \<Longrightarrow> distances st x = Some y \<Longrightarrow> \<not> num_less y (Fin dc)"
        by auto
      have cK: "c \<in> set (Object_keys g)" using c sub by auto
      then obtain node where node: "nodeAt g c = Some node" using nodeAt_keys[of g c] by auto
      let ?st1 = "st\<lparr>unvisited := removeAll c (unvisited st)\<rparr>"
      show ?thesis
      proof (cases "c = []")
        case True
        then have r: "dijkstra g e st = Inr st" using ne sel by (subst dijkstra.simps) simp
        have "?goal st" using True cK by simp
        then show ?thesis using r inv by blast
      next
        case cne: False
        show ?thesis
        proof (cases "c = e")
          case True
          have r: "dijkstra g e st = Inr ?st1"
            using ne sel cne c True by (subst dijkstra.simps) (simp add: Let_def)
          have "\<exists>d. distances ?st1 e = Some (Fin d) \<and> d \<le> path_length g p"
            if opt: "search_opt g s st" and p: "valid_path g p" "hd p = s" "last p = e" for p
            using walk_bound[OF opt p(1,2)]
          proof
            assume "\<exists>d. distances st (last p) = Some (Fin d) \<and> d \<le> path_length g p"
            then show ?thesis using p(3) by simp
          next
            assume "\<exists>y d. y \<in> set (unvisited st) \<and> distances st y = Some (Fin d) \<and> d \<le> path_length g p"
            then obtain y d where y: "y \<in> set (unvisited st)" "distances st y = Some (Fin d)"
              "d \<le> path_length g p" by blast
            have "dc \<le> d" using mn[OF y(1,2)] by simp
            then show ?thesis using c(2) True y(3) by simp
          qed
          then have "?goal ?st1" by blast
          then show ?thesis using r search_inv_remove[OF inv, of c] by blast
        next
          case False
          have "set (unvisited ?st1) \<subseteq> {k. nodeAt g k \<noteq> None}"
            using sub nodeAt_keys[of g] by auto
          from relax_no_error[OF this, of c node "connections node"]
          obtain st2 where rel: "relax g c node (connections node) ?st1 = Inr st2" by blast
          have r: "dijkstra g e st = dijkstra g e st2"
            using ne sel cne c False node rel by (subst dijkstra.simps) (simp add: Let_def)
          have inv2: "search_inv g s st2" by (rule search_inv_step[OF inv sel node rel])
          have "unvisited st2 = removeAll c (unvisited st)"
            using relax_unvisited[OF rel] by simp
          then have "length (unvisited st2) < length (unvisited st)"
            using c(1) by (simp add: length_removeAll_less)
          from less.hyps[OF this inv2] obtain st' where st': "dijkstra g e st2 = Inr st'"
            "search_inv g s st'"
            "search_opt g s st2 \<longrightarrow> [] \<notin> set (Object_keys g) \<longrightarrow>
              (\<forall>p. valid_path g p \<and> hd p = s \<and> last p = e \<longrightarrow>
                 (\<exists>d. distances st' e = Some (Fin d) \<and> d \<le> path_length g p))"
            by blast
          have "?goal st'" using st'(3) search_opt_step[OF inv _ sel node rel] by blast
          then show ?thesis using r st'(1,2) by simp
        qed
      qed
    qed
  qed
qed

subsection \<open>Results of the search\<close>

lemma dijkstra_from_init:
  "\<exists>st'. dijkstra g e (initState s (Object_keys g)) = Inr st' \<and> search_inv g s st'
     \<and> (s \<in> set (Object_keys g) \<longrightarrow> [] \<notin> set (Object_keys g) \<longrightarrow>
          (\<forall>p. valid_path g p \<and> hd p = s \<and> last p = e \<longrightarrow>
             (\<exists>d. distances st' e = Some (Fin d) \<and> d \<le> path_length g p)))"
  using dijkstra_result[where g = g and s = s and e = e and st = "initState s (Object_keys g)",
      OF search_inv_init] search_opt_init[of s g]
  by blast

lemma valid_path_hd_key: "valid_path g p \<Longrightarrow> hd p \<in> set (Object_keys g)"
proof -
  assume v: "valid_path g p"
  then have "p \<noteq> []" by auto
  then have "hd p \<in> set p" by simp
  from valid_path_nodes[OF v this] show ?thesis using nodeAt_keys[of g "hd p"] by simp
qed

lemma shortestPath_reachable:
  assumes "[] \<notin> set (Object_keys g)" and "valid_path g p" and "hd p = s" and "last p = e"
  shows "\<exists>q. shortestPath g s e = Some (Inr (map Str q)) \<and> valid_path g q \<and> hd q = s
     \<and> last q = e \<and> path_length g q \<le> path_length g p"
proof -
  have sK: "s \<in> set (Object_keys g)" using valid_path_hd_key[OF assms(2)] assms(3) by simp
  from dijkstra_from_init[of g e s] obtain st' d where
    r: "dijkstra g e (initState s (Object_keys g)) = Inr st'" and inv: "search_inv g s st'"
    and d: "distances st' e = Some (Fin d)" "d \<le> path_length g p"
    using sK assms by blast
  from inv d(1) obtain q where q: "tree_path g (previous st') s q" "last q = e"
    "path_length g q = d"
    unfolding search_inv_def by blast
  have "reconstruct (previous st') (Str e) [] = Some (map Str q)"
    using reconstruct_tree_path[OF q(1), of "[]"] q(2) by simp
  then have "shortestPath g s e = Some (Inr (map Str q))"
    using r by (simp add: shortestPath_def)
  then show ?thesis using tree_path_valid[OF q(1)] q d(2) by blast
qed

lemma shortestPath_unreachable:
  assumes "e \<in> set (Object_keys g)" and "\<not> reachable g s e"
  shows "shortestPath g s e = Some (Inr [Str e])"
proof -
  from dijkstra_from_init[of g e s] obtain st' where
    r: "dijkstra g e (initState s (Object_keys g)) = Inr st'" and inv: "search_inv g s st'"
    by blast
  from inv have domd: "dom (distances st') = set (Object_keys g)"
    and tree: "\<And>v d. distances st' v = Some (Fin d) \<Longrightarrow>
           \<exists>p. tree_path g (previous st') s p \<and> last p = v \<and> path_length g p = d
                \<and> set (butlast p) \<inter> set (unvisited st') = {}"
    and inf: "\<And>v. distances st' v = Some PosInfinity \<Longrightarrow> previous st' v = Some None"
    unfolding search_inv_def by blast+
  obtain x where x: "distances st' e = Some x" using assms(1) domd by blast
  have "x = PosInfinity"
  proof (cases x)
    case (Fin d)
    from tree[of e d] x Fin obtain p where "tree_path g (previous st') s p" "last p = e" by blast
    then have "reachable g s e" using tree_path_valid[of g "previous st'" s p]
      unfolding reachable_def by blast
    then show ?thesis using assms(2) by simp
  qed simp
  then have "previous st' e = Some None" using inf x by simp
  then have "reconstruct (previous st') (Str e) [] = Some [Str e]"
    by (simp add: reconstruct_Str readPrevious_def)
  then show ?thesis using r by (simp add: shortestPath_def)
qed

lemma not_reachable_unknown_start:
  "s \<notin> set (Object_keys g) \<Longrightarrow> \<not> reachable g s e"
  unfolding reachable_def using valid_path_hd_key by blast

lemma reconstruct_Undefined_diverges:
  assumes "prev ''undefined'' = None"
  shows "reconstruct prev Undefined path = None"
proof -
  have "\<not> (current = Undefined \<and> prev ''undefined'' = None)"
    if r: "reconstruct prev current path = Some y" for current path y
  proof (rule reconstruct.raw_induct[where P = "\<lambda>p c pa y. \<not> (c = Undefined \<and> p ''undefined'' = None)",
        OF _ r])
    fix rc :: "(string \<rightharpoonup> string option) \<Rightarrow> ref \<Rightarrow> ref list \<Rightarrow> ref list option"
      and p c pa y'
    assume ih: "\<And>p c pa y. rc p c pa = Some y \<Longrightarrow> \<not> (c = Undefined \<and> p ''undefined'' = None)"
      and body: "(if c \<noteq> Null then rc p (readPrevious p c) (c # pa) else Some pa) = Some y'"
    show "\<not> (c = Undefined \<and> p ''undefined'' = None)"
    proof
      assume a: "c = Undefined \<and> p ''undefined'' = None"
      then have "rc p Undefined (c # pa) = Some y'" using body by (simp add: readPrevious_def)
      from ih[OF this] a show False by simp
    qed
  qed
  then show ?thesis using assms by (cases "reconstruct prev Undefined path") auto
qed

lemma shortestPath_unknown_end:
  assumes "e \<notin> set (Object_keys g)" and "''undefined'' \<notin> set (Object_keys g)"
  shows "shortestPath g s e = None"
proof -
  from dijkstra_from_init[of g e s] obtain st' where
    r: "dijkstra g e (initState s (Object_keys g)) = Inr st'" and inv: "search_inv g s st'"
    by blast
  from inv have domp: "dom (previous st') = set (Object_keys g)"
    unfolding search_inv_def by blast
  have "previous st' e = None" "previous st' ''undefined'' = None"
    using assms domp by blast+
  then have "reconstruct (previous st') (Str e) [] = None"
    by (simp add: reconstruct_Str readPrevious_def reconstruct_Undefined_diverges)
  then show ?thesis using r by (simp add: shortestPath_def)
qed

subsection \<open>The steps of a valid path\<close>

lemma key_ids_nodeAt: "key_ids g \<Longrightarrow> nodeAt g k = Some node \<Longrightarrow> node_id node = k"
  unfolding key_ids_def nodeAt_def by (auto dest!: map_of_SomeD simp: list_all_iff)

lemma Math_round_close: "\<bar>real_of_int (Math_round (x * 10)) / 10 - x\<bar> \<le> 1 / 20"
proof -
  have "real_of_int \<lfloor>x * 10 + 1 / 2\<rfloor> \<le> x * 10 + 1 / 2"
    and "x * 10 + 1 / 2 < real_of_int \<lfloor>x * 10 + 1 / 2\<rfloor> + 1"
    by linarith+
  then show ?thesis unfolding Math_round_def by linarith
qed

lemma makeStep_fields:
  "step_from (makeStep a b) = node_id a" "step_to (makeStep a b) = node_id b"
  "step_floor (makeStep a b) = node_floor b"
  "distance (makeStep a b)
     = real_of_int (Math_round (calculateDistance (position a) (position b) * 10)) / 10"
  by (simp_all add: makeStep_def Let_def split: prod.splits)

lemma pathSteps_valid_path:
  "valid_path g q \<Longrightarrow> key_ids g \<Longrightarrow>
    \<exists>steps. pathSteps g (map Str q) = Inr steps
      \<and> map step_from steps = butlast q \<and> map step_to steps = tl q
      \<and> (\<Sum>step\<leftarrow>steps. edge_length g (step_from step) (step_to step)) = path_length g q
      \<and> (\<forall>step\<in>set steps.
            \<bar>distance step - edge_length g (step_from step) (step_to step)\<bar> \<le> 1 / 20)"
proof (induction g q rule: valid_path.induct)
  case (1 g)
  then show ?case by simp
next
  case (2 g a)
  then show ?case by simp
next
  case (3 g a b rest)
  then have e: "edge g a b" and v: "valid_path g (b # rest)" and k: "key_ids g" by simp_all
  from e obtain na nb where n: "nodeAt g a = Some na" "nodeAt g b = Some nb"
    by (auto simp: edge_def split: option.splits)
  have ids: "node_id na = a" "node_id nb = b"
    using key_ids_nodeAt[OF k] n by simp_all
  have el: "edge_length g a b = calculateDistance (position na) (position nb)"
    using n by (simp add: edge_length_def)
  from 3(1)[OF v k] obtain steps where s: "pathSteps g (map Str (b # rest)) = Inr steps"
    "map step_from steps = butlast (b # rest)" "map step_to steps = tl (b # rest)"
    "(\<Sum>step\<leftarrow>steps. edge_length g (step_from step) (step_to step)) = path_length g (b # rest)"
    "\<forall>step\<in>set steps. \<bar>distance step - edge_length g (step_from step) (step_to step)\<bar> \<le> 1 / 20"
    by blast
  let ?steps = "makeStep na nb # steps"
  have "pathSteps g (map Str (a # b # rest)) = Inr ?steps"
    using n s(1) by simp
  moreover have "map step_from ?steps = butlast (a # b # rest)"
    using s(2) ids by (simp add: makeStep_fields)
  moreover have "map step_to ?steps = tl (a # b # rest)"
    using s(3) ids by (simp add: makeStep_fields)
  moreover have "(\<Sum>step\<leftarrow>?steps. edge_length g (step_from step) (step_to step))
      = path_length g (a # b # rest)"
    using s(4) ids by (simp add: makeStep_fields)
  moreover have "\<forall>step\<in>set ?steps.
      \<bar>distance step - edge_length g (step_from step) (step_to step)\<bar> \<le> 1 / 20"
    using s(5) ids el Math_round_close[of "calculateDistance (position na) (position nb)"]
    by (simp add: makeStep_fields)
  ultimately show ?case by blast
qed

lemma findPathOn_reachable:
  assumes "key_ids g" and "[] \<notin> set (Object_keys g)"
    and "valid_path g p" and "hd p = s" and "last p = e"
  shows "\<exists>q steps. shortestPath g s e = Some (Inr (map Str q)) \<and> valid_path g q
      \<and> hd q = s \<and> last q = e \<and> path_length g q \<le> path_length g p
      \<and> findPathOn g s e = Some (Inr steps)
      \<and> map step_from steps = butlast q \<and> map step_to steps = tl q
      \<and> (\<Sum>step\<leftarrow>steps. edge_length g (step_from step) (step_to step)) = path_length g q
      \<and> (\<forall>step\<in>set steps.
            \<bar>distance step - edge_length g (step_from step) (step_to step)\<bar> \<le> 1 / 20)"
proof -
  from shortestPath_reachable[OF assms(2-5)] obtain q where
    q: "shortestPath g s e = Some (Inr (map Str q))" "valid_path g q" "hd q = s" "last q = e"
    "path_length g q \<le> path_length g p" by blast
  from pathSteps_valid_path[OF q(2) assms(1)] obtain steps where
    s: "pathSteps g (map Str q) = Inr steps"
      "map step_from steps = butlast q" "map step_to steps = tl q"
      "(\<Sum>step\<leftarrow>steps. edge_length g (step_from step) (step_to step)) = path_length g q"
      "\<forall>step\<in>set steps. \<bar>distance step - edge_length g (step_from step) (step_to step)\<bar> \<le> 1 / 20"
    by blast
  have "findPathOn g s e = Some (Inr steps)" using q(1) s(1) by (simp add: findPathOn_def)
  then show ?thesis using q s by blast
qed

section \<open>The search on the dataset\<close>

subsection \<open>The dataset\<close>

lemma navigation_distinct_keys: "distinct (map fst navigationNodes)"
  by (simp add: navigationNodes_def)

lemma navigation_keys:
  "Object_keys navigationNodes =
     [''11840'', ''ENTRANCE'', ''HALL1_1'', ''HALL1_2'', ''STAIRS1'', ''ELEVATOR1'', ''B101'',
      ''CAFE'', ''STAIRS2'', ''ELEVATOR2'', ''HALL2_1'', ''HALL2_2'', ''A233'', ''C205'', ''LIB'']"
  by (simp add: Object_keys_def navigationNodes_def is_array_index_def is_digit_def
      str_to_nat_def digit_val_def)

lemma navigation_nodeAt:
  "nodeAt navigationNodes ''ENTRANCE'' = Some (mkNode ''ENTRANCE'' (0, 1, -4) 1 Entrance [''HALL1_1'', ''HALL1_2''])"
  "nodeAt navigationNodes ''HALL1_1'' = Some (mkNode ''HALL1_1'' (0, 1, -2) 1 Hallway
       [''ENTRANCE'', ''HALL1_2'', ''B101'', ''STAIRS1''])"
  "nodeAt navigationNodes ''HALL1_2'' = Some (mkNode ''HALL1_2'' (2, 1, 0) 1 Hallway
       [''HALL1_1'', ''11840'', ''CAFE'', ''ELEVATOR1''])"
  "nodeAt navigationNodes ''STAIRS1'' = Some (mkNode ''STAIRS1'' (-1, 1, -1) 1 Stairs [''HALL1_1'', ''STAIRS2''])"
  "nodeAt navigationNodes ''ELEVATOR1'' = Some (mkNode ''ELEVATOR1'' (3, 1, -1) 1 Elevator [''HALL1_2'', ''ELEVATOR2''])"
  "nodeAt navigationNodes ''B101'' = Some (mkNode ''B101'' (0, 1, -2) 1 Room [''HALL1_1''])"
  "nodeAt navigationNodes ''11840'' = Some (mkNode ''11840'' (-2, 1, 2) 1 Room [''HALL1_2''])"
  "nodeAt navigationNodes ''CAFE'' = Some (mkNode ''CAFE'' (3, 1, 0) 1 Room [''HALL1_2''])"
  "nodeAt navigationNodes ''STAIRS2'' = Some (mkNode ''STAIRS2'' (-1, 2, -1) 2 Stairs [''STAIRS1'', ''HALL2_1''])"
  "nodeAt navigationNodes ''ELEVATOR2'' = Some (mkNode ''ELEVATOR2'' (3, 2, -1) 2 Elevator [''ELEVATOR1'', ''HALL2_2''])"
  "nodeAt navigationNodes ''HALL2_1'' = Some (mkNode ''HALL2_1'' (0, 2, 0) 2 Hallway
       [''STAIRS2'', ''HALL2_2'', ''A233'', ''C205''])"
  "nodeAt navigationNodes ''HALL2_2'' = Some (mkNode ''HALL2_2'' (2, 2, 1) 2 Hallway [''HALL2_1'', ''ELEVATOR2'', ''LIB''])"
  "nodeAt navigationNodes ''A233'' = Some (mkNode ''A233'' (2, 2, 0) 2 Room [''HALL2_1''])"
  "nodeAt navigationNodes ''C205'' = Some (mkNode ''C205'' (-1, 2, 1) 2 Room [''HALL2_1''])"
  "nodeAt navigationNodes ''LIB'' = Some (mkNode ''LIB'' (0, 2, 3) 2 Room [''HALL2_2''])"
  by (simp_all add: nodeAt_def navigationNodes_def)

text \<open>Bounds for the irrational edge lengths of the dataset.\<close>

lemma sqrt_bounds:
  "1414 / 1000 < sqrt 2" "sqrt 2 < 1415 / 1000"
  "2236 / 1000 < sqrt 5" "sqrt 5 < 2237 / 1000"
  "2828 / 1000 < sqrt 8" "sqrt 8 < 2829 / 1000"
  "4472 / 1000 < sqrt 20" "sqrt 20 < 4473 / 1000"
  by (rule real_less_rsqrt real_less_lsqrt; simp add: power2_eq_square)+

subsection \<open>Unfolding one iteration of the search\<close>

lemma dijkstra_continue:
  assumes "unvisited st \<noteq> []"
    and "selectMin (distances st) (unvisited st) (None, PosInfinity) = (Some c, m)"
    and "c \<noteq> []" and "distances st c \<noteq> Some PosInfinity" and "c \<noteq> e"
    and "nodeAt g c = Some node"
    and "relax g c node (connections node) (st\<lparr>unvisited := removeAll c (unvisited st)\<rparr>) = Inr st2"
  shows "dijkstra g e st = dijkstra g e st2"
  using assms by (subst dijkstra.simps) (simp add: Let_def)

lemma dijkstra_reached:
  assumes "unvisited st \<noteq> []"
    and "selectMin (distances st) (unvisited st) (None, PosInfinity) = (Some c, m)"
    and "c \<noteq> []" and "distances st c \<noteq> Some PosInfinity"
  shows "dijkstra g c st = Inr (st\<lparr>unvisited := removeAll c (unvisited st)\<rparr>)"
  using assms by (subst dijkstra.simps) (simp add: Let_def)

subsection \<open>The search from the entrance\<close>

text \<open>The states of the \<^verbatim>\<open>while\<close> loop of a search from \<open>ENTRANCE\<close>, iteration by
  iteration: \<open>D\<close>\<open>k\<close> and \<open>P\<close>\<open>k\<close> are the maps \<open>distances\<close> and \<open>previous\<close>, \<open>?U\<close>\<open>k\<close> is
  the set \<open>unvisited\<close>. The nodes are settled in the order \<open>ENTRANCE\<close>, \<open>HALL1_1\<close>,
  \<open>B101\<close>, \<open>STAIRS1\<close>, \<open>STAIRS2\<close>, \<open>HALL1_2\<close>, \<open>CAFE\<close>, \<open>HALL2_1\<close>, \<open>ELEVATOR1\<close>,
  \<open>ELEVATOR2\<close>, \<open>C205\<close>, \<open>A233\<close>, \<open>HALL2_2\<close>, \<open>11840\<close>, \<open>LIB\<close>.\<close>

lemma entrance_routes:
  "shortestPath navigationNodes ''ENTRANCE'' ''STAIRS1'' =
     Some (Inr [Str ''ENTRANCE'', Str ''HALL1_1'', Str ''STAIRS1''])"
  "shortestPath navigationNodes ''ENTRANCE'' ''HALL1_2'' =
     Some (Inr [Str ''ENTRANCE'', Str ''HALL1_2''])"
  "shortestPath navigationNodes ''ENTRANCE'' ''LIB'' =
     Some (Inr [Str ''ENTRANCE'', Str ''HALL1_1'', Str ''STAIRS1'', Str ''STAIRS2'',
                Str ''HALL2_1'', Str ''HALL2_2'', Str ''LIB''])"
proof -
  let ?g = navigationNodes
  define D0 :: "string \<rightharpoonup> jsnum"
    where "D0 = [''11840'' \<mapsto> PosInfinity, ''ENTRANCE'' \<mapsto> Fin 0,
                  ''HALL1_1'' \<mapsto> PosInfinity, ''HALL1_2'' \<mapsto> PosInfinity,
                  ''STAIRS1'' \<mapsto> PosInfinity, ''ELEVATOR1'' \<mapsto> PosInfinity,
                  ''B101'' \<mapsto> PosInfinity, ''CAFE'' \<mapsto> PosInfinity,
                  ''STAIRS2'' \<mapsto> PosInfinity, ''ELEVATOR2'' \<mapsto> PosInfinity,
                  ''HALL2_1'' \<mapsto> PosInfinity, ''HALL2_2'' \<mapsto> PosInfinity,
                  ''A233'' \<mapsto> PosInfinity, ''C205'' \<mapsto> PosInfinity,
                  ''LIB'' \<mapsto> PosInfinity]"
  define P0 :: "string \<rightharpoonup> string option"
    where "P0 = [''11840'' \<mapsto> None, ''ENTRANCE'' \<mapsto> None,
                  ''HALL1_1'' \<mapsto> None, ''HALL1_2'' \<mapsto> None,
                  ''STAIRS1'' \<mapsto> None, ''ELEVATOR1'' \<mapsto> None,
                  ''B101'' \<mapsto> None, ''CAFE'' \<mapsto> None, ''STAIRS2'' \<mapsto> None,
                  ''ELEVATOR2'' \<mapsto> None, ''HALL2_1'' \<mapsto> None,
                  ''HALL2_2'' \<mapsto> None, ''A233'' \<mapsto> None, ''C205'' \<mapsto> None,
                  ''LIB'' \<mapsto> None]"
  have D0_at:
    "D0 ''11840'' = Some PosInfinity" "D0 ''ENTRANCE'' = Some (Fin 0)"
    "D0 ''HALL1_1'' = Some PosInfinity" "D0 ''HALL1_2'' = Some PosInfinity"
    "D0 ''STAIRS1'' = Some PosInfinity" "D0 ''ELEVATOR1'' = Some PosInfinity"
    "D0 ''B101'' = Some PosInfinity" "D0 ''CAFE'' = Some PosInfinity"
    "D0 ''STAIRS2'' = Some PosInfinity" "D0 ''ELEVATOR2'' = Some PosInfinity"
    "D0 ''HALL2_1'' = Some PosInfinity" "D0 ''HALL2_2'' = Some PosInfinity"
    "D0 ''A233'' = Some PosInfinity" "D0 ''C205'' = Some PosInfinity"
    "D0 ''LIB'' = Some PosInfinity"
    by (simp_all add: D0_def)
  define D1 where "D1 = D0(''HALL1_1'' \<mapsto> Fin 2, ''HALL1_2'' \<mapsto> Fin (sqrt 20))"
  define P1 where "P1 = P0(''HALL1_1'' \<mapsto> Some ''ENTRANCE'',
                ''HALL1_2'' \<mapsto> Some ''ENTRANCE'')"
  have D1_at:
    "D1 ''11840'' = Some PosInfinity" "D1 ''ENTRANCE'' = Some (Fin 0)"
    "D1 ''HALL1_1'' = Some (Fin 2)" "D1 ''HALL1_2'' = Some (Fin (sqrt 20))"
    "D1 ''STAIRS1'' = Some PosInfinity" "D1 ''ELEVATOR1'' = Some PosInfinity"
    "D1 ''B101'' = Some PosInfinity" "D1 ''CAFE'' = Some PosInfinity"
    "D1 ''STAIRS2'' = Some PosInfinity" "D1 ''ELEVATOR2'' = Some PosInfinity"
    "D1 ''HALL2_1'' = Some PosInfinity" "D1 ''HALL2_2'' = Some PosInfinity"
    "D1 ''A233'' = Some PosInfinity" "D1 ''C205'' = Some PosInfinity"
    "D1 ''LIB'' = Some PosInfinity"
    by (simp_all add: D1_def D0_at)
  define D2 where "D2 = D1(''B101'' \<mapsto> Fin 2, ''STAIRS1'' \<mapsto> Fin (2 + sqrt 2))"
  define P2 where "P2 = P1(''B101'' \<mapsto> Some ''HALL1_1'', ''STAIRS1'' \<mapsto> Some ''HALL1_1'')"
  have D2_at:
    "D2 ''11840'' = Some PosInfinity" "D2 ''ENTRANCE'' = Some (Fin 0)"
    "D2 ''HALL1_1'' = Some (Fin 2)" "D2 ''HALL1_2'' = Some (Fin (sqrt 20))"
    "D2 ''STAIRS1'' = Some (Fin (2 + sqrt 2))" "D2 ''ELEVATOR1'' = Some PosInfinity"
    "D2 ''B101'' = Some (Fin 2)" "D2 ''CAFE'' = Some PosInfinity"
    "D2 ''STAIRS2'' = Some PosInfinity" "D2 ''ELEVATOR2'' = Some PosInfinity"
    "D2 ''HALL2_1'' = Some PosInfinity" "D2 ''HALL2_2'' = Some PosInfinity"
    "D2 ''A233'' = Some PosInfinity" "D2 ''C205'' = Some PosInfinity"
    "D2 ''LIB'' = Some PosInfinity"
    by (simp_all add: D2_def D1_at)
  define D4 where "D4 = D2(''STAIRS2'' \<mapsto> Fin (2 + sqrt 2 + 1))"
  define P4 where "P4 = P2(''STAIRS2'' \<mapsto> Some ''STAIRS1'')"
  have D4_at:
    "D4 ''11840'' = Some PosInfinity" "D4 ''ENTRANCE'' = Some (Fin 0)"
    "D4 ''HALL1_1'' = Some (Fin 2)" "D4 ''HALL1_2'' = Some (Fin (sqrt 20))"
    "D4 ''STAIRS1'' = Some (Fin (2 + sqrt 2))" "D4 ''ELEVATOR1'' = Some PosInfinity"
    "D4 ''B101'' = Some (Fin 2)" "D4 ''CAFE'' = Some PosInfinity"
    "D4 ''STAIRS2'' = Some (Fin (2 + sqrt 2 + 1))" "D4 ''ELEVATOR2'' = Some PosInfinity"
    "D4 ''HALL2_1'' = Some PosInfinity" "D4 ''HALL2_2'' = Some PosInfinity"
    "D4 ''A233'' = Some PosInfinity" "D4 ''C205'' = Some PosInfinity"
    "D4 ''LIB'' = Some PosInfinity"
    by (simp_all add: D4_def D2_at)
  define D5 where "D5 = D4(''HALL2_1'' \<mapsto> Fin (2 + sqrt 2 + 1 + sqrt 2))"
  define P5 where "P5 = P4(''HALL2_1'' \<mapsto> Some ''STAIRS2'')"
  have D5_at:
    "D5 ''11840'' = Some PosInfinity" "D5 ''ENTRANCE'' = Some (Fin 0)"
    "D5 ''HALL1_1'' = Some (Fin 2)" "D5 ''HALL1_2'' = Some (Fin (sqrt 20))"
    "D5 ''STAIRS1'' = Some (Fin (2 + sqrt 2))" "D5 ''ELEVATOR1'' = Some PosInfinity"
    "D5 ''B101'' = Some (Fin 2)" "D5 ''CAFE'' = Some PosInfinity"
    "D5 ''STAIRS2'' = Some (Fin (2 + sqrt 2 + 1))" "D5 ''ELEVATOR2'' = Some PosInfinity"
    "D5 ''HALL2_1'' = Some (Fin (2 + sqrt 2 + 1 + sqrt 2))" "D5 ''HALL2_2'' = Some PosInfinity"
    "D5 ''A233'' = Some PosInfinity" "D5 ''C205'' = Some PosInfinity"
    "D5 ''LIB'' = Some PosInfinity"
    by (simp_all add: D5_def D4_at)
  define D6 where "D6 = D5(''11840'' \<mapsto> Fin (sqrt 20 + sqrt 20),
                ''CAFE'' \<mapsto> Fin (sqrt 20 + 1),
                ''ELEVATOR1'' \<mapsto> Fin (sqrt 20 + sqrt 2))"
  define P6 where "P6 = P5(''11840'' \<mapsto> Some ''HALL1_2'', ''CAFE'' \<mapsto> Some ''HALL1_2'',
                ''ELEVATOR1'' \<mapsto> Some ''HALL1_2'')"
  have D6_at:
    "D6 ''11840'' = Some (Fin (sqrt 20 + sqrt 20))" "D6 ''ENTRANCE'' = Some (Fin 0)"
    "D6 ''HALL1_1'' = Some (Fin 2)" "D6 ''HALL1_2'' = Some (Fin (sqrt 20))"
    "D6 ''STAIRS1'' = Some (Fin (2 + sqrt 2))"
    "D6 ''ELEVATOR1'' = Some (Fin (sqrt 20 + sqrt 2))" "D6 ''B101'' = Some (Fin 2)"
    "D6 ''CAFE'' = Some (Fin (sqrt 20 + 1))" "D6 ''STAIRS2'' = Some (Fin (2 + sqrt 2 + 1))"
    "D6 ''ELEVATOR2'' = Some PosInfinity"
    "D6 ''HALL2_1'' = Some (Fin (2 + sqrt 2 + 1 + sqrt 2))" "D6 ''HALL2_2'' = Some PosInfinity"
    "D6 ''A233'' = Some PosInfinity" "D6 ''C205'' = Some PosInfinity"
    "D6 ''LIB'' = Some PosInfinity"
    by (simp_all add: D6_def D5_at)
  define D8 where "D8 = D6(''HALL2_2'' \<mapsto> Fin (2 + sqrt 2 + 1 + sqrt 2 + sqrt 5),
                ''A233'' \<mapsto> Fin (2 + sqrt 2 + 1 + sqrt 2 + 2),
                ''C205'' \<mapsto> Fin (2 + sqrt 2 + 1 + sqrt 2 + sqrt 2))"
  define P8 where "P8 = P6(''HALL2_2'' \<mapsto> Some ''HALL2_1'', ''A233'' \<mapsto> Some ''HALL2_1'',
                ''C205'' \<mapsto> Some ''HALL2_1'')"
  have D8_at:
    "D8 ''11840'' = Some (Fin (sqrt 20 + sqrt 20))" "D8 ''ENTRANCE'' = Some (Fin 0)"
    "D8 ''HALL1_1'' = Some (Fin 2)" "D8 ''HALL1_2'' = Some (Fin (sqrt 20))"
    "D8 ''STAIRS1'' = Some (Fin (2 + sqrt 2))"
    "D8 ''ELEVATOR1'' = Some (Fin (sqrt 20 + sqrt 2))" "D8 ''B101'' = Some (Fin 2)"
    "D8 ''CAFE'' = Some (Fin (sqrt 20 + 1))" "D8 ''STAIRS2'' = Some (Fin (2 + sqrt 2 + 1))"
    "D8 ''ELEVATOR2'' = Some PosInfinity"
    "D8 ''HALL2_1'' = Some (Fin (2 + sqrt 2 + 1 + sqrt 2))"
    "D8 ''HALL2_2'' = Some (Fin (2 + sqrt 2 + 1 + sqrt 2 + sqrt 5))"
    "D8 ''A233'' = Some (Fin (2 + sqrt 2 + 1 + sqrt 2 + 2))"
    "D8 ''C205'' = Some (Fin (2 + sqrt 2 + 1 + sqrt 2 + sqrt 2))"
    "D8 ''LIB'' = Some PosInfinity"
    by (simp_all add: D8_def D6_at)
  define D9 where "D9 = D8(''ELEVATOR2'' \<mapsto> Fin (sqrt 20 + sqrt 2 + 1))"
  define P9 where "P9 = P8(''ELEVATOR2'' \<mapsto> Some ''ELEVATOR1'')"
  have D9_at:
    "D9 ''11840'' = Some (Fin (sqrt 20 + sqrt 20))" "D9 ''ENTRANCE'' = Some (Fin 0)"
    "D9 ''HALL1_1'' = Some (Fin 2)" "D9 ''HALL1_2'' = Some (Fin (sqrt 20))"
    "D9 ''STAIRS1'' = Some (Fin (2 + sqrt 2))"
    "D9 ''ELEVATOR1'' = Some (Fin (sqrt 20 + sqrt 2))" "D9 ''B101'' = Some (Fin 2)"
    "D9 ''CAFE'' = Some (Fin (sqrt 20 + 1))" "D9 ''STAIRS2'' = Some (Fin (2 + sqrt 2 + 1))"
    "D9 ''ELEVATOR2'' = Some (Fin (sqrt 20 + sqrt 2 + 1))"
    "D9 ''HALL2_1'' = Some (Fin (2 + sqrt 2 + 1 + sqrt 2))"
    "D9 ''HALL2_2'' = Some (Fin (2 + sqrt 2 + 1 + sqrt 2 + sqrt 5))"
    "D9 ''A233'' = Some (Fin (2 + sqrt 2 + 1 + sqrt 2 + 2))"
    "D9 ''C205'' = Some (Fin (2 + sqrt 2 + 1 + sqrt 2 + sqrt 2))"
    "D9 ''LIB'' = Some PosInfinity"
    by (simp_all add: D9_def D8_at)
  define D13 where "D13 = D9(''LIB'' \<mapsto> Fin (2 + sqrt 2 + 1 + sqrt 2 + sqrt 5 + sqrt 8))"
  define P13 where "P13 = P9(''LIB'' \<mapsto> Some ''HALL2_2'')"
  have D13_at:
    "D13 ''11840'' = Some (Fin (sqrt 20 + sqrt 20))" "D13 ''ENTRANCE'' = Some (Fin 0)"
    "D13 ''HALL1_1'' = Some (Fin 2)" "D13 ''HALL1_2'' = Some (Fin (sqrt 20))"
    "D13 ''STAIRS1'' = Some (Fin (2 + sqrt 2))"
    "D13 ''ELEVATOR1'' = Some (Fin (sqrt 20 + sqrt 2))" "D13 ''B101'' = Some (Fin 2)"
    "D13 ''CAFE'' = Some (Fin (sqrt 20 + 1))" "D13 ''STAIRS2'' = Some (Fin (2 + sqrt 2 + 1))"
    "D13 ''ELEVATOR2'' = Some (Fin (sqrt 20 + sqrt 2 + 1))"
    "D13 ''HALL2_1'' = Some (Fin (2 + sqrt 2 + 1 + sqrt 2))"
    "D13 ''HALL2_2'' = Some (Fin (2 + sqrt 2 + 1 + sqrt 2 + sqrt 5))"
    "D13 ''A233'' = Some (Fin (2 + sqrt 2 + 1 + sqrt 2 + 2))"
    "D13 ''C205'' = Some (Fin (2 + sqrt 2 + 1 + sqrt 2 + sqrt 2))"
    "D13 ''LIB'' = Some (Fin (2 + sqrt 2 + 1 + sqrt 2 + sqrt 5 + sqrt 8))"
    by (simp_all add: D13_def D9_at)
  let ?U0 = "[''11840'', ''ENTRANCE'', ''HALL1_1'', ''HALL1_2'', ''STAIRS1'', ''ELEVATOR1'',
              ''B101'', ''CAFE'', ''STAIRS2'', ''ELEVATOR2'', ''HALL2_1'', ''HALL2_2'',
              ''A233'', ''C205'', ''LIB'']"
  let ?U1 = "[''11840'', ''HALL1_1'', ''HALL1_2'', ''STAIRS1'', ''ELEVATOR1'', ''B101'',
              ''CAFE'', ''STAIRS2'', ''ELEVATOR2'', ''HALL2_1'', ''HALL2_2'', ''A233'',
              ''C205'', ''LIB'']"
  let ?U2 = "[''11840'', ''HALL1_2'', ''STAIRS1'', ''ELEVATOR1'', ''B101'', ''CAFE'',
              ''STAIRS2'', ''ELEVATOR2'', ''HALL2_1'', ''HALL2_2'', ''A233'', ''C205'',
              ''LIB'']"
  let ?U3 = "[''11840'', ''HALL1_2'', ''STAIRS1'', ''ELEVATOR1'', ''CAFE'', ''STAIRS2'',
              ''ELEVATOR2'', ''HALL2_1'', ''HALL2_2'', ''A233'', ''C205'', ''LIB'']"
  let ?U4 = "[''11840'', ''HALL1_2'', ''ELEVATOR1'', ''CAFE'', ''STAIRS2'', ''ELEVATOR2'',
              ''HALL2_1'', ''HALL2_2'', ''A233'', ''C205'', ''LIB'']"
  let ?U5 = "[''11840'', ''HALL1_2'', ''ELEVATOR1'', ''CAFE'', ''ELEVATOR2'', ''HALL2_1'',
              ''HALL2_2'', ''A233'', ''C205'', ''LIB'']"
  let ?U6 = "[''11840'', ''ELEVATOR1'', ''CAFE'', ''ELEVATOR2'', ''HALL2_1'', ''HALL2_2'',
              ''A233'', ''C205'', ''LIB'']"
  let ?U7 = "[''11840'', ''ELEVATOR1'', ''ELEVATOR2'', ''HALL2_1'', ''HALL2_2'', ''A233'',
              ''C205'', ''LIB'']"
  let ?U8 = "[''11840'', ''ELEVATOR1'', ''ELEVATOR2'', ''HALL2_2'', ''A233'', ''C205'',
              ''LIB'']"
  let ?U9 = "[''11840'', ''ELEVATOR2'', ''HALL2_2'', ''A233'', ''C205'', ''LIB'']"
  let ?U10 = "[''11840'', ''HALL2_2'', ''A233'', ''C205'', ''LIB'']"
  let ?U11 = "[''11840'', ''HALL2_2'', ''A233'', ''LIB'']"
  let ?U12 = "[''11840'', ''HALL2_2'', ''LIB'']"
  let ?U13 = "[''11840'', ''LIB'']"
  let ?U14 = "[''LIB'']"
  let ?U15 = "[]"
  have init: "initState ''ENTRANCE'' (Object_keys ?g) = \<lparr>distances = D0, previous = P0, unvisited = ?U0\<rparr>"
    by (simp add: navigation_keys initState_def D0_def P0_def)
  have s0: "dijkstra ?g e \<lparr>distances = D0, previous = P0, unvisited = ?U0\<rparr>
      = dijkstra ?g e \<lparr>distances = D1, previous = P1, unvisited = ?U1\<rparr>"
    if "e \<noteq> ''ENTRANCE''" for e
    by (rule dijkstra_continue[where c = "''ENTRANCE''" and m = "Fin 0"
          and node = "mkNode ''ENTRANCE'' (0, 1, - 4) 1 Entrance [''HALL1_1'', ''HALL1_2'']"])
       (use that sqrt_bounds in \<open>simp_all add: navigation_nodeAt calculateDistance_def mkNode_def
          Let_def D0_at D1_def P1_def\<close>)
  have s1: "dijkstra ?g e \<lparr>distances = D1, previous = P1, unvisited = ?U1\<rparr>
      = dijkstra ?g e \<lparr>distances = D2, previous = P2, unvisited = ?U2\<rparr>"
    if "e \<noteq> ''HALL1_1''" for e
    by (rule dijkstra_continue[where c = "''HALL1_1''" and m = "Fin 2"
          and node = "mkNode ''HALL1_1'' (0, 1, - 2) 1 Hallway [''ENTRANCE'', ''HALL1_2'', ''B101'', ''STAIRS1'']"])
       (use that sqrt_bounds in \<open>simp_all add: navigation_nodeAt calculateDistance_def mkNode_def
          Let_def D1_at D2_def P2_def\<close>)
  have s2: "dijkstra ?g e \<lparr>distances = D2, previous = P2, unvisited = ?U2\<rparr>
      = dijkstra ?g e \<lparr>distances = D2, previous = P2, unvisited = ?U3\<rparr>"
    if "e \<noteq> ''B101''" for e
    by (rule dijkstra_continue[where c = "''B101''" and m = "Fin 2"
          and node = "mkNode ''B101'' (0, 1, - 2) 1 Room [''HALL1_1'']"])
       (use that sqrt_bounds in \<open>simp_all add: navigation_nodeAt calculateDistance_def mkNode_def
          Let_def D2_at\<close>)
  have s3: "dijkstra ?g e \<lparr>distances = D2, previous = P2, unvisited = ?U3\<rparr>
      = dijkstra ?g e \<lparr>distances = D4, previous = P4, unvisited = ?U4\<rparr>"
    if "e \<noteq> ''STAIRS1''" for e
    by (rule dijkstra_continue[where c = "''STAIRS1''" and m = "Fin (2 + sqrt 2)"
          and node = "mkNode ''STAIRS1'' (- 1, 1, - 1) 1 Stairs [''HALL1_1'', ''STAIRS2'']"])
       (use that sqrt_bounds in \<open>simp_all add: navigation_nodeAt calculateDistance_def mkNode_def
          Let_def D2_at D4_def P4_def\<close>)
  have r3: "dijkstra ?g ''STAIRS1'' \<lparr>distances = D2, previous = P2, unvisited = ?U3\<rparr>
      = Inr \<lparr>distances = D2, previous = P2, unvisited = ?U4\<rparr>"
    using dijkstra_reached[where c = "''STAIRS1''" and m = "Fin (2 + sqrt 2)" and g = ?g
        and st = "\<lparr>distances = D2, previous = P2, unvisited = ?U3\<rparr>"]
      sqrt_bounds by (simp add: D2_at)
  have s4: "dijkstra ?g e \<lparr>distances = D4, previous = P4, unvisited = ?U4\<rparr>
      = dijkstra ?g e \<lparr>distances = D5, previous = P5, unvisited = ?U5\<rparr>"
    if "e \<noteq> ''STAIRS2''" for e
    by (rule dijkstra_continue[where c = "''STAIRS2''" and m = "Fin (2 + sqrt 2 + 1)"
          and node = "mkNode ''STAIRS2'' (- 1, 2, - 1) 2 Stairs [''STAIRS1'', ''HALL2_1'']"])
       (use that sqrt_bounds in \<open>simp_all add: navigation_nodeAt calculateDistance_def mkNode_def
          Let_def D4_at D5_def P5_def\<close>)
  have s5: "dijkstra ?g e \<lparr>distances = D5, previous = P5, unvisited = ?U5\<rparr>
      = dijkstra ?g e \<lparr>distances = D6, previous = P6, unvisited = ?U6\<rparr>"
    if "e \<noteq> ''HALL1_2''" for e
    by (rule dijkstra_continue[where c = "''HALL1_2''" and m = "Fin (sqrt 20)"
          and node = "mkNode ''HALL1_2'' (2, 1, 0) 1 Hallway [''HALL1_1'', ''11840'', ''CAFE'', ''ELEVATOR1'']"])
       (use that sqrt_bounds in \<open>simp_all add: navigation_nodeAt calculateDistance_def mkNode_def
          Let_def D5_at D6_def P6_def\<close>)
  have r5: "dijkstra ?g ''HALL1_2'' \<lparr>distances = D5, previous = P5, unvisited = ?U5\<rparr>
      = Inr \<lparr>distances = D5, previous = P5, unvisited = ?U6\<rparr>"
    using dijkstra_reached[where c = "''HALL1_2''" and m = "Fin (sqrt 20)" and g = ?g
        and st = "\<lparr>distances = D5, previous = P5, unvisited = ?U5\<rparr>"]
      sqrt_bounds by (simp add: D5_at)
  have s6: "dijkstra ?g e \<lparr>distances = D6, previous = P6, unvisited = ?U6\<rparr>
      = dijkstra ?g e \<lparr>distances = D6, previous = P6, unvisited = ?U7\<rparr>"
    if "e \<noteq> ''CAFE''" for e
    by (rule dijkstra_continue[where c = "''CAFE''" and m = "Fin (sqrt 20 + 1)"
          and node = "mkNode ''CAFE'' (3, 1, 0) 1 Room [''HALL1_2'']"])
       (use that sqrt_bounds in \<open>simp_all add: navigation_nodeAt calculateDistance_def mkNode_def
          Let_def D6_at\<close>)
  have s7: "dijkstra ?g e \<lparr>distances = D6, previous = P6, unvisited = ?U7\<rparr>
      = dijkstra ?g e \<lparr>distances = D8, previous = P8, unvisited = ?U8\<rparr>"
    if "e \<noteq> ''HALL2_1''" for e
    by (rule dijkstra_continue[where c = "''HALL2_1''" and m = "Fin (2 + sqrt 2 + 1 + sqrt 2)"
          and node = "mkNode ''HALL2_1'' (0, 2, 0) 2 Hallway [''STAIRS2'', ''HALL2_2'', ''A233'', ''C205'']"])
       (use that sqrt_bounds in \<open>simp_all add: navigation_nodeAt calculateDistance_def mkNode_def
          Let_def D6_at D8_def P8_def\<close>)
  have s8: "dijkstra ?g e \<lparr>distances = D8, previous = P8, unvisited = ?U8\<rparr>
      = dijkstra ?g e \<lparr>distances = D9, previous = P9, unvisited = ?U9\<rparr>"
    if "e \<noteq> ''ELEVATOR1''" for e
    by (rule dijkstra_continue[where c = "''ELEVATOR1''" and m = "Fin (sqrt 20 + sqrt 2)"
          and node = "mkNode ''ELEVATOR1'' (3, 1, - 1) 1 Elevator [''HALL1_2'', ''ELEVATOR2'']"])
       (use that sqrt_bounds in \<open>simp_all add: navigation_nodeAt calculateDistance_def mkNode_def
          Let_def D8_at D9_def P9_def\<close>)
  have s9: "dijkstra ?g e \<lparr>distances = D9, previous = P9, unvisited = ?U9\<rparr>
      = dijkstra ?g e \<lparr>distances = D9, previous = P9, unvisited = ?U10\<rparr>"
    if "e \<noteq> ''ELEVATOR2''" for e
    by (rule dijkstra_continue[where c = "''ELEVATOR2''" and m = "Fin (sqrt 20 + sqrt 2 + 1)"
          and node = "mkNode ''ELEVATOR2'' (3, 2, - 1) 2 Elevator [''ELEVATOR1'', ''HALL2_2'']"])
       (use that sqrt_bounds in \<open>simp_all add: navigation_nodeAt calculateDistance_def mkNode_def
          Let_def D9_at\<close>)
  have s10: "dijkstra ?g e \<lparr>distances = D9, previous = P9, unvisited = ?U10\<rparr>
      = dijkstra ?g e \<lparr>distances = D9, previous = P9, unvisited = ?U11\<rparr>"
    if "e \<noteq> ''C205''" for e
    by (rule dijkstra_continue[where c = "''C205''" and m = "Fin (2 + sqrt 2 + 1 + sqrt 2 + sqrt 2)"
          and node = "mkNode ''C205'' (- 1, 2, 1) 2 Room [''HALL2_1'']"])
       (use that sqrt_bounds in \<open>simp_all add: navigation_nodeAt calculateDistance_def mkNode_def
          Let_def D9_at\<close>)
  have s11: "dijkstra ?g e \<lparr>distances = D9, previous = P9, unvisited = ?U11\<rparr>
      = dijkstra ?g e \<lparr>distances = D9, previous = P9, unvisited = ?U12\<rparr>"
    if "e \<noteq> ''A233''" for e
    by (rule dijkstra_continue[where c = "''A233''" and m = "Fin (2 + sqrt 2 + 1 + sqrt 2 + 2)"
          and node = "mkNode ''A233'' (2, 2, 0) 2 Room [''HALL2_1'']"])
       (use that sqrt_bounds in \<open>simp_all add: navigation_nodeAt calculateDistance_def mkNode_def
          Let_def D9_at\<close>)
  have s12: "dijkstra ?g e \<lparr>distances = D9, previous = P9, unvisited = ?U12\<rparr>
      = dijkstra ?g e \<lparr>distances = D13, previous = P13, unvisited = ?U13\<rparr>"
    if "e \<noteq> ''HALL2_2''" for e
    by (rule dijkstra_continue[where c = "''HALL2_2''" and m = "Fin (2 + sqrt 2 + 1 + sqrt 2 + sqrt 5)"
          and node = "mkNode ''HALL2_2'' (2, 2, 1) 2 Hallway [''HALL2_1'', ''ELEVATOR2'', ''LIB'']"])
       (use that sqrt_bounds in \<open>simp_all add: navigation_nodeAt calculateDistance_def mkNode_def
          Let_def D9_at D13_def P13_def\<close>)
  have s13: "dijkstra ?g e \<lparr>distances = D13, previous = P13, unvisited = ?U13\<rparr>
      = dijkstra ?g e \<lparr>distances = D13, previous = P13, unvisited = ?U14\<rparr>"
    if "e \<noteq> ''11840''" for e
    by (rule dijkstra_continue[where c = "''11840''" and m = "Fin (sqrt 20 + sqrt 20)"
          and node = "mkNode ''11840'' (- 2, 1, 2) 1 Room [''HALL1_2'']"])
       (use that sqrt_bounds in \<open>simp_all add: navigation_nodeAt calculateDistance_def mkNode_def
          Let_def D13_at\<close>)
  have r14: "dijkstra ?g ''LIB'' \<lparr>distances = D13, previous = P13, unvisited = ?U14\<rparr>
      = Inr \<lparr>distances = D13, previous = P13, unvisited = ?U15\<rparr>"
    using dijkstra_reached[where c = "''LIB''" and m = "Fin (2 + sqrt 2 + 1 + sqrt 2 + sqrt 5 + sqrt 8)" and g = ?g
        and st = "\<lparr>distances = D13, previous = P13, unvisited = ?U14\<rparr>"]
      sqrt_bounds by (simp add: D13_at)
  have "dijkstra ?g ''STAIRS1'' \<lparr>distances = D0, previous = P0, unvisited = ?U0\<rparr> = dijkstra ?g ''STAIRS1'' \<lparr>distances = D1, previous = P1, unvisited = ?U1\<rparr>"
    by (rule s0) simp
  also have "\<dots> = dijkstra ?g ''STAIRS1'' \<lparr>distances = D2, previous = P2, unvisited = ?U2\<rparr>"
    by (rule s1) simp
  also have "\<dots> = dijkstra ?g ''STAIRS1'' \<lparr>distances = D2, previous = P2, unvisited = ?U3\<rparr>"
    by (rule s2) simp
  also have "\<dots> = Inr \<lparr>distances = D2, previous = P2, unvisited = ?U4\<rparr>"
    by (rule r3)
  finally show "shortestPath navigationNodes ''ENTRANCE'' ''STAIRS1'' =
     Some (Inr [Str ''ENTRANCE'', Str ''HALL1_1'', Str ''STAIRS1''])"
    by (simp add: shortestPath_def init readPrevious_def reconstruct_Str P0_def P1_def P2_def)
  have "dijkstra ?g ''HALL1_2'' \<lparr>distances = D0, previous = P0, unvisited = ?U0\<rparr> = dijkstra ?g ''HALL1_2'' \<lparr>distances = D1, previous = P1, unvisited = ?U1\<rparr>"
    by (rule s0) simp
  also have "\<dots> = dijkstra ?g ''HALL1_2'' \<lparr>distances = D2, previous = P2, unvisited = ?U2\<rparr>"
    by (rule s1) simp
  also have "\<dots> = dijkstra ?g ''HALL1_2'' \<lparr>distances = D2, previous = P2, unvisited = ?U3\<rparr>"
    by (rule s2) simp
  also have "\<dots> = dijkstra ?g ''HALL1_2'' \<lparr>distances = D4, previous = P4, unvisited = ?U4\<rparr>"
    by (rule s3) simp
  also have "\<dots> = dijkstra ?g ''HALL1_2'' \<lparr>distances = D5, previous = P5, unvisited = ?U5\<rparr>"
    by (rule s4) simp
  also have "\<dots> = Inr \<lparr>distances = D5, previous = P5, unvisited = ?U6\<rparr>"
    by (rule r5)
  finally show "shortestPath navigationNodes ''ENTRANCE'' ''HALL1_2'' =
     Some (Inr [Str ''ENTRANCE'', Str ''HALL1_2''])"
    by (simp add: shortestPath_def init readPrevious_def reconstruct_Str P0_def P1_def P2_def P4_def P5_def)
  have "dijkstra ?g ''LIB'' \<lparr>distances = D0, previous = P0, unvisited = ?U0\<rparr> = dijkstra ?g ''LIB'' \<lparr>distances = D1, previous = P1, unvisited = ?U1\<rparr>"
    by (rule s0) simp
  also have "\<dots> = dijkstra ?g ''LIB'' \<lparr>distances = D2, previous = P2, unvisited = ?U2\<rparr>"
    by (rule s1) simp
  also have "\<dots> = dijkstra ?g ''LIB'' \<lparr>distances = D2, previous = P2, unvisited = ?U3\<rparr>"
    by (rule s2) simp
  also have "\<dots> = dijkstra ?g ''LIB'' \<lparr>distances = D4, previous = P4, unvisited = ?U4\<rparr>"
    by (rule s3) simp
  also have "\<dots> = dijkstra ?g ''LIB'' \<lparr>distances = D5, previous = P5, unvisited = ?U5\<rparr>"
    by (rule s4) simp
  also have "\<dots> = dijkstra ?g ''LIB'' \<lparr>distances = D6, previous = P6, unvisited = ?U6\<rparr>"
    by (rule s5) simp
  also have "\<dots> = dijkstra ?g ''LIB'' \<lparr>distances = D6, previous = P6, unvisited = ?U7\<rparr>"
    by (rule s6) simp
  also have "\<dots> = dijkstra ?g ''LIB'' \<lparr>distances = D8, previous = P8, unvisited = ?U8\<rparr>"
    by (rule s7) simp
  also have "\<dots> = dijkstra ?g ''LIB'' \<lparr>distances = D9, previous = P9, unvisited = ?U9\<rparr>"
    by (rule s8) simp
  also have "\<dots> = dijkstra ?g ''LIB'' \<lparr>distances = D9, previous = P9, unvisited = ?U10\<rparr>"
    by (rule s9) simp
  also have "\<dots> = dijkstra ?g ''LIB'' \<lparr>distances = D9, previous = P9, unvisited = ?U11\<rparr>"
    by (rule s10) simp
  also have "\<dots> = dijkstra ?g ''LIB'' \<lparr>distances = D9, previous = P9, unvisited = ?U12\<rparr>"
    by (rule s11) simp
  also have "\<dots> = dijkstra ?g ''LIB'' \<lparr>distances = D13, previous = P13, unvisited = ?U13\<rparr>"
    by (rule s12) simp
  also have "\<dots> = dijkstra ?g ''LIB'' \<lparr>distances = D13, previous = P13, unvisited = ?U14\<rparr>"
    by (rule s13) simp
  also have "\<dots> = Inr \<lparr>distances = D13, previous = P13, unvisited = ?U15\<rparr>"
    by (rule r14)
  finally show "shortestPath navigationNodes ''ENTRANCE'' ''LIB'' =
     Some (Inr [Str ''ENTRANCE'', Str ''HALL1_1'', Str ''STAIRS1'', Str ''STAIRS2'',
                Str ''HALL2_1'', Str ''HALL2_2'', Str ''LIB''])"
    by (simp add: shortestPath_def init readPrevious_def reconstruct_Str P0_def P1_def P2_def P4_def P5_def P6_def P8_def P9_def P13_def)
qed

subsection \<open>Bearings and rounded lengths on the routes from the entrance\<close>

lemma arctan_half_bounds: "pi / 8 < arctan (1 / 2)" "arctan (1 / 2) < pi / 4"
proof -
  have "arctan (1 / 2) + arctan (1 / 2) = arctan ((1 / 2 + 1 / 2) / (1 - (1 / 2) * (1 / 2)))"
    by (rule arctan_add) simp_all
  also have "\<dots> = arctan (4 / 3)" by simp
  finally have e: "2 * arctan (1 / 2) = arctan (4 / 3)" by simp
  have "arctan 1 < arctan (4 / 3)" by (simp add: arctan_less_iff)
  then show "pi / 8 < arctan (1 / 2)" using e by (simp add: arctan_one)
  have "arctan (1 / 2) < arctan 1" by (simp add: arctan_less_iff)
  then show "arctan (1 / 2) < pi / 4" by (simp add: arctan_one)
qed

lemma arctan_half_degrees:
  "45 / 2 < arctan (1 / 2) * 180 / pi" "arctan (1 / 2) * 180 / pi < 45"
proof -
  have p: "0 < 180 / pi" by simp
  have "pi / 8 * (180 / pi) < arctan (1 / 2) * (180 / pi)"
    using arctan_half_bounds(1) p by (rule mult_strict_right_mono)
  then show "45 / 2 < arctan (1 / 2) * 180 / pi" by simp
  have "arctan (1 / 2) * (180 / pi) < pi / 4 * (180 / pi)"
    using arctan_half_bounds(2) p by (rule mult_strict_right_mono)
  then show "arctan (1 / 2) * 180 / pi < 45" by simp
qed

lemma atan2_values:
  "atan2 2 0 = 1 / 2 * pi" "atan2 1 (- 1) = 3 / 4 * pi" "atan2 0 0 = 0 * pi"
  "atan2 1 1 = 1 / 4 * pi" "atan2 1 2 = arctan (1 / 2)" "atan2 2 (- 2) = 3 / 4 * pi"
  by (simp_all add: atan2_def arctan_one arctan_minus)

lemma northeast_sector: "45 / 2 \<le> a \<Longrightarrow> a < 135 / 2 \<Longrightarrow> directionOfAngle a = ''northeast''"
  by (simp add: directionOfAngle_def)

lemma dirs:
  "getDirection (0, 1, -4) (0, 1, -2) = ''north''"
  "getDirection (0, 1, -2) (-1, 1, -1) = ''northwest''"
  "getDirection (-1, 1, -1) (-1, 2, -1) = ''east''"
  "getDirection (-1, 2, -1) (0, 2, 0) = ''northeast''"
  "getDirection (2, 2, 1) (0, 2, 3) = ''northwest''"
  by (simp_all add: getDirection_angle atan2_values degrees_of_pi directionOfAngle_def del: times_divide_eq_left)

lemma dir_half: "getDirection (0, 2, 0) (2, 2, 1) = ''northeast''"
proof -
  have "getDirection (0, 2, 0) (2, 2, 1) = directionOfAngle (arctan (1 / 2) * 180 / pi)"
    by (simp add: getDirection_angle atan2_values)
  also have "\<dots> = ''northeast''"
    using arctan_half_degrees by (intro northeast_sector) linarith+
  finally show ?thesis .
qed

lemma rounds:
  "Math_round (sqrt 2 * 10) = 14" "Math_round (sqrt 5 * 10) = 22" "Math_round (sqrt 8 * 10) = 28"
  "Math_round (sqrt 20 * 10) = 45" "Math_round 10 = 10" "Math_round 20 = 20"
  unfolding Math_round_def using sqrt_bounds by (simp_all add: floor_eq_iff)

lemma show_int_digits: "show_int 1 = ''1''" "show_int 2 = ''2''"
  by (simp_all add: show_int_def digit_char_def)

subsection \<open>The plans from the entrance to the stairs and to the library\<close>

text \<open>
  Claim C3. The claim says that \<open>floorChange\<close> is present only on a segment that changes
  floor, and that a segment into a stairs node on the same floor carries none. The code
  tests \<open>toNode.floor > fromNode.floor\<close> for a stairs node and takes the \<open>down\<close> branch
  otherwise, so the step from \<open>HALL1_1\<close> (floor 1) to \<open>STAIRS1\<close> (floor 1) carries
  \<open>floorChange = down\<close> and the text \<open>Take the stairs down to floor 1\<close>. The plan from
  \<open>ENTRANCE\<close> to \<open>STAIRS1\<close> ends with that step.
\<close>

theorem stairs_on_same_floor_step:
  "findPath ''ENTRANCE'' ''STAIRS1'' = Some (Inr
     [\<lparr>step_from = ''ENTRANCE'', step_to = ''HALL1_1'', direction = ''north'', distance = 2,
        instruction = ''Continue north down the hallway'', step_floor = 1, floorChange = None\<rparr>,
      \<lparr>step_from = ''HALL1_1'', step_to = ''STAIRS1'', direction = ''northwest'',
        distance = 14 / 10, instruction = ''Take the stairs down to floor 1'', step_floor = 1,
        floorChange = Some Down\<rparr>])"
  by (simp add: findPath_def findPathOn_def entrance_routes navigation_nodeAt makeStep_def
      mkNode_def dirs dir_half calculateDistance_def rounds show_int_digits)

text \<open>
  Claim C4. On the dataset the plan from \<open>ENTRANCE\<close> to \<open>LIB\<close> ends at \<open>LIB\<close> and its
  floors are 1, 1, 2, 2, 2, 2, as the claim says; but two of its six steps carry a
  \<open>floorChange\<close>, not one: the step into \<open>STAIRS1\<close> on floor 1 (\<open>down\<close>) and the step from
  \<open>STAIRS1\<close> to \<open>STAIRS2\<close> (\<open>up\<close>).
\<close>

theorem entrance_to_library_plan:
  "\<exists>steps. findPath ''ENTRANCE'' ''LIB'' = Some (Inr steps)
     \<and> steps =
     [\<lparr>step_from = ''ENTRANCE'', step_to = ''HALL1_1'', direction = ''north'', distance = 2,
        instruction = ''Continue north down the hallway'', step_floor = 1, floorChange = None\<rparr>,
      \<lparr>step_from = ''HALL1_1'', step_to = ''STAIRS1'', direction = ''northwest'',
        distance = 14 / 10, instruction = ''Take the stairs down to floor 1'', step_floor = 1,
        floorChange = Some Down\<rparr>,
      \<lparr>step_from = ''STAIRS1'', step_to = ''STAIRS2'', direction = ''east'', distance = 1,
        instruction = ''Take the stairs up to floor 2'', step_floor = 2, floorChange = Some Up\<rparr>,
      \<lparr>step_from = ''STAIRS2'', step_to = ''HALL2_1'', direction = ''northeast'',
        distance = 14 / 10, instruction = ''Continue northeast down the hallway'',
        step_floor = 2, floorChange = None\<rparr>,
      \<lparr>step_from = ''HALL2_1'', step_to = ''HALL2_2'', direction = ''northeast'',
        distance = 22 / 10, instruction = ''Continue northeast down the hallway'',
        step_floor = 2, floorChange = None\<rparr>,
      \<lparr>step_from = ''HALL2_2'', step_to = ''LIB'', direction = ''northwest'',
        distance = 28 / 10, instruction = ''Arrive at LIB'', step_floor = 2,
        floorChange = None\<rparr>]
     \<and> step_to (last steps) = ''LIB''
     \<and> map step_floor steps = [1, 1, 2, 2, 2, 2]
     \<and> length (filter (\<lambda>step. floorChange step \<noteq> None) steps) = 2"
  by (simp add: findPath_def findPathOn_def entrance_routes navigation_nodeAt makeStep_def
      mkNode_def dirs dir_half calculateDistance_def rounds show_int_digits)

section \<open>Same waypoint, unknown waypoints, unreachable waypoints\<close>

lemma shortestPath_same:
  assumes "w \<in> set (Object_keys g)"
  shows "shortestPath g w w = Some (Inr [Str w])"
proof -
  let ?st0 = "initState w (Object_keys g)"
  have ne: "unvisited ?st0 \<noteq> []" using assms by (auto simp: init_unvisited)
  have sel: "selectMin (distances ?st0) (unvisited ?st0) (None, PosInfinity) = (Some w, Fin 0)"
    using selectMin_start_only(2)[of "Object_keys g" "distances ?st0" w] assms
    by (simp add: init_distances init_unvisited)
  have dw: "distances ?st0 w = Some (Fin 0)" using assms by (simp add: init_distances)
  have "\<exists>st'. dijkstra g w ?st0 = Inr st' \<and> previous st' = previous ?st0"
    using ne sel dw by (subst dijkstra.simps) (simp add: Let_def)
  then obtain st' where st': "dijkstra g w ?st0 = Inr st'" "previous st' = previous ?st0"
    by blast
  have "previous st' w = Some None" using st'(2) assms by (simp add: init_previous)
  then have "reconstruct (previous st') (Str w) [] = Some [Str w]"
    by (simp add: reconstruct_Str readPrevious_def)
  then show ?thesis using st'(1) by (simp add: shortestPath_def)
qed

text \<open>
  Claim C7. For every graph and every waypoint \<open>w\<close> that is a key of it, a call with
  \<open>startId = endId = w\<close> reconstructs the single-node path \<open>[w]\<close> and returns the empty
  instruction list; it is not an error. (\<open>findPath\<close> is \<open>findPathOn navigationNodes\<close>.)
\<close>

theorem same_waypoint_plan_is_empty:
  assumes "w \<in> set (Object_keys g)"
  shows "shortestPath g w w = Some (Inr [Str w]) \<and> findPathOn g w w = Some (Inr [])"
  using shortestPath_same[OF assms] by (simp add: findPathOn_def)

theorem same_waypoint_plan_is_empty_witness:
  "''LIB'' \<in> set (Object_keys navigationNodes)
   \<and> shortestPath navigationNodes ''LIB'' ''LIB'' = Some (Inr [Str ''LIB''])
   \<and> findPath ''LIB'' ''LIB'' = Some (Inr [])"
proof -
  have k: "''LIB'' \<in> set (Object_keys navigationNodes)" by (simp add: navigation_keys)
  from same_waypoint_plan_is_empty[OF k] k show ?thesis by (simp add: findPath_def)
qed

lemma shortestPath_unknown_start:
  assumes "s \<notin> set (Object_keys g)" and "e \<in> set (Object_keys g)"
  shows "shortestPath g s e = Some (Inr [Str e])"
  using shortestPath_unreachable[OF assms(2) not_reachable_unknown_start[OF assms(1)]] .

text \<open>
  Claim C1, as the code has it. The code has no check of the two ids and no outcome for
  an unknown waypoint. When \<open>startId\<close> is not a key of the graph and \<open>endId\<close> is one, no node
  gets distance 0, the search stops at once and the call returns the empty instruction
  list, the value it also returns for \<open>startId = endId\<close>.
\<close>

theorem unknown_start_gives_empty_plan:
  assumes "startId \<notin> set (Object_keys g)" and "endId \<in> set (Object_keys g)"
  shows "findPathOn g startId endId = Some (Inr [])"
  using shortestPath_unknown_start[OF assms] by (simp add: findPathOn_def)

theorem unknown_start_gives_empty_plan_witness:
  "''NOWHERE'' \<notin> set (Object_keys navigationNodes)
   \<and> ''CAFE'' \<in> set (Object_keys navigationNodes)
   \<and> findPath ''NOWHERE'' ''CAFE'' = Some (Inr [])"
proof -
  have k: "''NOWHERE'' \<notin> set (Object_keys navigationNodes)"
    "''CAFE'' \<in> set (Object_keys navigationNodes)"
    by (simp_all add: navigation_keys)
  from unknown_start_gives_empty_plan[OF k] k show ?thesis by (simp add: findPath_def)
qed

text \<open>On the dataset: an unknown start with the end \<open>LIB\<close> gives the empty list and no
  failure; an unknown end makes the reconstruction loop read \<^verbatim>\<open>undefined\<close> for ever, so
  the call does not return.\<close>

theorem unknown_waypoint_counterexample:
  "''UNKNOWN_ID'' \<notin> set (Object_keys navigationNodes)
   \<and> findPath ''UNKNOWN_ID'' ''LIB'' = Some (Inr [])
   \<and> findPath ''ENTRANCE'' ''UNKNOWN_ID'' = None"
proof -
  have k: "''UNKNOWN_ID'' \<notin> set (Object_keys navigationNodes)"
    "''LIB'' \<in> set (Object_keys navigationNodes)"
    "''undefined'' \<notin> set (Object_keys navigationNodes)"
    by (simp_all add: navigation_keys)
  have "shortestPath navigationNodes ''UNKNOWN_ID'' ''LIB'' = Some (Inr [Str ''LIB''])"
    by (rule shortestPath_unknown_start[OF k(1,2)])
  moreover have "shortestPath navigationNodes ''ENTRANCE'' ''UNKNOWN_ID'' = None"
    by (rule shortestPath_unknown_end[OF k(1,3)])
  ultimately show ?thesis using k(1) by (simp add: findPath_def findPathOn_def)
qed

lemma two_rooms_keys: "Object_keys two_rooms = [''A'', ''B'']"
  by (simp add: Object_keys_def two_rooms_def is_array_index_def is_digit_def)

lemma two_rooms_not_connected: "\<not> reachable two_rooms ''A'' ''B''" "\<not> reachable two_rooms ''B'' ''A''"
proof -
  have "\<not> edge two_rooms u v" for u v
    by (simp add: edge_def nodeAt_def two_rooms_def mkNode_def)
  then have "hd p = last p" if "valid_path two_rooms p" for p
    using that by (cases p; cases "tl p") auto
  then show "\<not> reachable two_rooms ''A'' ''B''" "\<not> reachable two_rooms ''B'' ''A''"
    unfolding reachable_def by fastforce+
qed

text \<open>
  Claim C2, as the code has it. For every graph and every pair of keys with \<open>endId\<close> not
  reachable from \<open>startId\<close>, the call returns: the reconstructed path is the single node
  \<open>[endId]\<close>, with no \<^verbatim>\<open>null\<close> in it, and the result is the empty instruction list. There
  is no failure value for it.
\<close>

theorem unreachable_gives_empty_plan:
  assumes "startId \<in> set (Object_keys g)" and "endId \<in> set (Object_keys g)"
    and "\<not> reachable g startId endId"
  shows "shortestPath g startId endId = Some (Inr [Str endId])
    \<and> findPathOn g startId endId = Some (Inr [])"
  using shortestPath_unreachable[OF assms(2,3)] by (simp add: findPathOn_def)

theorem unreachable_gives_empty_plan_witness:
  "''B'' \<in> set (Object_keys two_rooms) \<and> ''A'' \<in> set (Object_keys two_rooms)
   \<and> \<not> reachable two_rooms ''B'' ''A''
   \<and> shortestPath two_rooms ''B'' ''A'' = Some (Inr [Str ''A''])
   \<and> findPathOn two_rooms ''B'' ''A'' = Some (Inr [])"
proof -
  have k: "''B'' \<in> set (Object_keys two_rooms)" "''A'' \<in> set (Object_keys two_rooms)"
    by (simp_all add: two_rooms_keys)
  from unreachable_gives_empty_plan[OF k two_rooms_not_connected(2)] k two_rooms_not_connected(2)
  show ?thesis by simp
qed

text \<open>Two rooms without a connection: the plan from one to the other is the empty list,
  not a failure.\<close>

theorem no_path_counterexample:
  "''A'' \<in> set (Object_keys two_rooms) \<and> ''B'' \<in> set (Object_keys two_rooms)
   \<and> \<not> reachable two_rooms ''A'' ''B''
   \<and> findPathOn two_rooms ''A'' ''B'' = Some (Inr [])"
proof -
  have k: "''A'' \<in> set (Object_keys two_rooms)" "''B'' \<in> set (Object_keys two_rooms)"
    by (simp_all add: two_rooms_keys)
  have "shortestPath two_rooms ''A'' ''B'' = Some (Inr [Str ''B''])"
    by (rule shortestPath_unreachable[OF k(2) two_rooms_not_connected(1)])
  then show ?thesis using k two_rooms_not_connected(1) by (simp add: findPathOn_def)
qed

section \<open>Plans between connected waypoints of the dataset\<close>

lemma navigation_key_ids: "key_ids navigationNodes"
  by (simp add: key_ids_def navigationNodes_def mkNode_def)

lemma navigation_no_empty_key: "[] \<notin> set (Object_keys navigationNodes)"
  by (simp add: navigation_keys)

lemma path_ends:
  assumes "map f steps = butlast q" and "map h steps = tl q" and "q \<noteq> []" and "hd q \<noteq> last q"
  shows "steps \<noteq> []" and "length steps + 1 = length q"
    and "f (hd steps) = hd q" and "h (last steps) = last q"
    and "\<forall>i. Suc i < length steps \<longrightarrow> h (steps ! i) = f (steps ! Suc i)"
proof -
  have l: "length steps = length q - 1" using assms(1) by (metis length_butlast length_map)
  have q2: "2 \<le> length q" using assms(3,4) by (cases q; cases "tl q") auto
  show ne: "steps \<noteq> []" using l q2 by auto
  show "length steps + 1 = length q" using l q2 by simp
  have "f (hd steps) = hd (map f steps)" using ne by (simp add: hd_map)
  also have "\<dots> = hd q" using assms(1) q2 by (cases q; cases "tl q") auto
  finally show "f (hd steps) = hd q" .
  have "h (last steps) = last (map h steps)" using ne by (simp add: last_map)
  also have "\<dots> = last q" using assms(2) q2 by (cases q; cases "tl q") auto
  finally show "h (last steps) = last q" .
  show "\<forall>i. Suc i < length steps \<longrightarrow> h (steps ! i) = f (steps ! Suc i)"
  proof (intro allI impI)
    fix i assume i: "Suc i < length steps"
    have "h (steps ! i) = map h steps ! i" using i by simp
    also have "\<dots> = q ! Suc i" using assms(2) i l by (simp add: nth_tl)
    also have "\<dots> = butlast q ! Suc i" using i l by (simp add: nth_butlast)
    also have "\<dots> = f (steps ! Suc i)" using assms(1)[symmetric] i by simp
    finally show "h (steps ! i) = f (steps ! Suc i)" .
  qed
qed

lemma valid_path_edges:
  "valid_path g q \<Longrightarrow> Suc i < length q \<Longrightarrow> edge g (q ! i) (q ! Suc i)"
proof (induction g q arbitrary: i rule: valid_path.induct)
  case (1 g)
  then show ?case by simp
next
  case (2 g a)
  then show ?case by simp
next
  case (3 g a b rest)
  then show ?case by (cases i) simp_all
qed

lemma pathSteps_nth:
  "pathSteps g (map Str q) = Inr steps \<Longrightarrow> i < length steps \<Longrightarrow>
     \<exists>u v. nodeAt g (q ! i) = Some u \<and> nodeAt g (q ! Suc i) = Some v
       \<and> steps ! i = makeStep u v"
proof (induction g q arbitrary: steps i rule: valid_path.induct)
  case (1 g)
  then show ?case by simp
next
  case (2 g a)
  then show ?case by simp
next
  case (3 g a b rest)
  from 3(2) obtain u v rs where n: "nodeAt g a = Some u" "nodeAt g b = Some v"
    and r: "pathSteps g (map Str (b # rest)) = Inr rs" and s: "steps = makeStep u v # rs"
    by (auto split: option.splits sum.splits)
  show ?case
  proof (cases i)
    case 0
    then show ?thesis using n s by simp
  next
    case (Suc j)
    then have "j < length rs" using 3(3) s by simp
    from 3(1)[OF r this] show ?thesis using Suc s by simp
  qed
qed

text \<open>
  Claim C6. For every pair of waypoints \<open>a \<noteq> b\<close> of the dataset with \<open>b\<close> reachable from
  \<open>a\<close>, \<open>findPath a b\<close> returns a non-empty instruction list with one instruction for each
  pair of neighbours in the reconstructed path; the first instruction starts at \<open>a\<close>, the
  last one ends at \<open>b\<close>, and every instruction starts where the one before it ends. The
  reconstructed path is a path of the graph from \<open>a\<close> to \<open>b\<close>: the \<open>i\<close>-th instruction goes
  from the \<open>i\<close>-th waypoint of the path to the next one, along an edge of the graph, and it
  is the step that the loop of \<^verbatim>\<open>findPath\<close> builds from the two nodes.
\<close>

theorem connected_pair_plan_chains:
  assumes "reachable navigationNodes a b" and "a \<noteq> b"
  shows "\<exists>path steps. shortestPath navigationNodes a b = Some (Inr (map Str path))
     \<and> findPath a b = Some (Inr steps)
     \<and> steps \<noteq> [] \<and> length steps + 1 = length path
     \<and> map step_from steps = butlast path \<and> map step_to steps = tl path
     \<and> step_from (hd steps) = a \<and> step_to (last steps) = b
     \<and> (\<forall>i. Suc i < length steps \<longrightarrow> step_to (steps ! i) = step_from (steps ! Suc i))
     \<and> valid_path navigationNodes path \<and> hd path = a \<and> last path = b
     \<and> pathSteps navigationNodes (map Str path) = Inr steps
     \<and> (\<forall>i. i < length steps \<longrightarrow>
           step_from (steps ! i) = path ! i \<and> step_to (steps ! i) = path ! Suc i
         \<and> edge navigationNodes (step_from (steps ! i)) (step_to (steps ! i))
         \<and> (\<exists>fromNode toNode. nodeAt navigationNodes (path ! i) = Some fromNode
               \<and> nodeAt navigationNodes (path ! Suc i) = Some toNode
               \<and> steps ! i = makeStep fromNode toNode))"
proof -
  from assms(1) obtain p where p: "valid_path navigationNodes p" "hd p = a" "last p = b"
    unfolding reachable_def by blast
  from findPathOn_reachable[OF navigation_key_ids navigation_no_empty_key p]
  obtain q steps where q: "shortestPath navigationNodes a b = Some (Inr (map Str q))"
    "valid_path navigationNodes q" "hd q = a" "last q = b"
    "findPathOn navigationNodes a b = Some (Inr steps)"
    "map step_from steps = butlast q" "map step_to steps = tl q"
    by blast
  have ne: "q \<noteq> []" using q(2) by auto
  have d: "hd q \<noteq> last q" using q(3,4) assms(2) by simp
  note e = path_ends[OF q(6,7) ne d]
  have ps: "pathSteps navigationNodes (map Str q) = Inr steps"
    using q(1,5) by (simp add: findPathOn_def)
  have n: "\<forall>i. i < length steps \<longrightarrow>
           step_from (steps ! i) = q ! i \<and> step_to (steps ! i) = q ! Suc i
         \<and> edge navigationNodes (step_from (steps ! i)) (step_to (steps ! i))
         \<and> (\<exists>fromNode toNode. nodeAt navigationNodes (q ! i) = Some fromNode
               \<and> nodeAt navigationNodes (q ! Suc i) = Some toNode
               \<and> steps ! i = makeStep fromNode toNode)"
  proof (intro allI impI)
    fix i assume i: "i < length steps"
    then have iq: "Suc i < length q" using e(2) by simp
    have "step_from (steps ! i) = map step_from steps ! i" using i by simp
    also have "\<dots> = q ! i" using iq by (simp add: q(6) nth_butlast)
    finally have f: "step_from (steps ! i) = q ! i" .
    have "step_to (steps ! i) = map step_to steps ! i" using i by simp
    also have "\<dots> = q ! Suc i" using iq by (simp add: q(7) nth_tl)
    finally have t: "step_to (steps ! i) = q ! Suc i" .
    have g: "edge navigationNodes (q ! i) (q ! Suc i)"
      using q(2) iq by (rule valid_path_edges)
    from pathSteps_nth[OF ps i] f t g
    show "step_from (steps ! i) = q ! i \<and> step_to (steps ! i) = q ! Suc i
         \<and> edge navigationNodes (step_from (steps ! i)) (step_to (steps ! i))
         \<and> (\<exists>fromNode toNode. nodeAt navigationNodes (q ! i) = Some fromNode
               \<and> nodeAt navigationNodes (q ! Suc i) = Some toNode
               \<and> steps ! i = makeStep fromNode toNode)"
      by simp
  qed
  have fp: "findPath a b = Some (Inr steps)" using q(5) by (simp add: findPath_def)
  have hs: "step_from (hd steps) = a" using e(3) q(3) by simp
  have ls: "step_to (last steps) = b" using e(4) q(4) by simp
  show ?thesis
    by (intro exI[of _ q] exI[of _ steps] conjI q(1) fp e(1) e(2) q(6) q(7) hs ls e(5)
        q(2) q(3) q(4) ps n)
qed

text \<open>The plan from \<open>ENTRANCE\<close> to \<open>LIB\<close> has six instructions, along the seven waypoints of
  the path through the stairs.\<close>

theorem connected_pair_plan_chains_witness:
  "reachable navigationNodes ''ENTRANCE'' ''LIB''
   \<and> ''ENTRANCE'' \<noteq> ''LIB''
   \<and> (\<exists>path steps.
         shortestPath navigationNodes ''ENTRANCE'' ''LIB'' = Some (Inr (map Str path))
       \<and> path = [''ENTRANCE'', ''HALL1_1'', ''STAIRS1'', ''STAIRS2'', ''HALL2_1'', ''HALL2_2'',
                 ''LIB'']
       \<and> findPath ''ENTRANCE'' ''LIB'' = Some (Inr steps)
       \<and> length steps = 6
       \<and> map step_from steps = butlast path \<and> map step_to steps = tl path
       \<and> step_from (hd steps) = ''ENTRANCE'' \<and> step_to (last steps) = ''LIB''
       \<and> (\<forall>i. Suc i < length steps \<longrightarrow> step_to (steps ! i) = step_from (steps ! Suc i))
       \<and> valid_path navigationNodes path
       \<and> (\<forall>i. i < length steps \<longrightarrow>
             edge navigationNodes (step_from (steps ! i)) (step_to (steps ! i))))"
proof -
  let ?p = "[''ENTRANCE'', ''HALL1_1'', ''STAIRS1'', ''STAIRS2'', ''HALL2_1'', ''HALL2_2'', ''LIB'']"
  have "valid_path navigationNodes ?p"
    by (simp add: edge_def navigation_nodeAt mkNode_def)
  then have r: "reachable navigationNodes ''ENTRANCE'' ''LIB''"
    unfolding reachable_def by (intro exI[of _ ?p]) simp
  have n: "''ENTRANCE'' \<noteq> ''LIB''" by simp
  from connected_pair_plan_chains[OF r n] obtain path steps where
    c: "shortestPath navigationNodes ''ENTRANCE'' ''LIB'' = Some (Inr (map Str path))"
      "findPath ''ENTRANCE'' ''LIB'' = Some (Inr steps)"
      "length steps + 1 = length path"
      "map step_from steps = butlast path" "map step_to steps = tl path"
      "step_from (hd steps) = ''ENTRANCE''" "step_to (last steps) = ''LIB''"
      "\<forall>i. Suc i < length steps \<longrightarrow> step_to (steps ! i) = step_from (steps ! Suc i)"
      "valid_path navigationNodes path"
      "\<forall>i. i < length steps \<longrightarrow>
           step_from (steps ! i) = path ! i \<and> step_to (steps ! i) = path ! Suc i
         \<and> edge navigationNodes (step_from (steps ! i)) (step_to (steps ! i))
         \<and> (\<exists>fromNode toNode. nodeAt navigationNodes (path ! i) = Some fromNode
               \<and> nodeAt navigationNodes (path ! Suc i) = Some toNode
               \<and> steps ! i = makeStep fromNode toNode)"
    by (elim exE conjE)
  have m: "map Str path = map Str ?p" using c(1) entrance_routes(3) by simp
  have "inj Str" by (simp add: inj_def)
  from inj_map_eq_map[OF this, of path ?p] m have pe: "path = ?p" by (rule iffD1)
  have l: "length steps = 6" using c(3) pe by simp
  have ed: "\<forall>i. i < length steps \<longrightarrow>
             edge navigationNodes (step_from (steps ! i)) (step_to (steps ! i))"
    using c(10) by blast
  show ?thesis
    apply (intro conjI r n exI[of _ path] exI[of _ steps])
    apply (rule c(1) pe c(2) l c(4) c(5) c(6) c(7) c(8) c(9) ed)+
    done
qed

lemma sum_list_close:
  "(\<And>x. x \<in> set xs \<Longrightarrow> \<bar>f x - h x\<bar> \<le> c)
     \<Longrightarrow> (\<Sum>x\<leftarrow>xs. f x) \<le> (\<Sum>x\<leftarrow>xs. h x) + real (length xs) * (c :: real)"
proof (induction xs)
  case Nil
  then show ?case by simp
next
  case (Cons x xs)
  have "f x \<le> h x + c" using Cons.prems[of x] by simp
  moreover have "(\<Sum>x\<leftarrow>xs. f x) \<le> (\<Sum>x\<leftarrow>xs. h x) + real (length xs) * c"
    using Cons by simp
  ultimately show ?case by (simp add: algebra_simps)
qed

text \<open>
  Claim C5, as the code has it. For every pair \<open>(a, b)\<close> of the dataset and every valid path
  \<open>p\<close> from \<open>a\<close> to \<open>b\<close>, \<open>findPath a b\<close> returns a plan whose segments have unrounded
  lengths that sum to at most the length of \<open>p\<close>. The field \<open>distance\<close> of a step is that
  length rounded to one decimal place, at most \<open>0.05\<close> away from it, so the sum of the
  \<open>distance\<close> fields is at most the length of \<open>p\<close> plus \<open>0.05\<close> for each instruction.
\<close>

theorem plan_is_shortest_path:
  assumes "valid_path navigationNodes p" and "hd p = a" and "last p = b"
  shows "\<exists>steps. findPath a b = Some (Inr steps)
     \<and> (\<Sum>step\<leftarrow>steps. edge_length navigationNodes (step_from step) (step_to step))
         \<le> path_length navigationNodes p
     \<and> (\<forall>step\<in>set steps.
           \<bar>distance step - edge_length navigationNodes (step_from step) (step_to step)\<bar>
             \<le> 1 / 20)
     \<and> (\<Sum>step\<leftarrow>steps. distance step)
         \<le> path_length navigationNodes p + real (length steps) / 20"
proof -
  from findPathOn_reachable[OF navigation_key_ids navigation_no_empty_key assms]
  obtain q steps where s: "path_length navigationNodes q \<le> path_length navigationNodes p"
    "findPathOn navigationNodes a b = Some (Inr steps)"
    "(\<Sum>step\<leftarrow>steps. edge_length navigationNodes (step_from step) (step_to step))
       = path_length navigationNodes q"
    "\<forall>step\<in>set steps.
       \<bar>distance step - edge_length navigationNodes (step_from step) (step_to step)\<bar> \<le> 1 / 20"
    by blast
  have "(\<Sum>step\<leftarrow>steps. distance step)
      \<le> (\<Sum>step\<leftarrow>steps. edge_length navigationNodes (step_from step) (step_to step))
        + real (length steps) / 20"
    using sum_list_close[of steps distance
        "\<lambda>step. edge_length navigationNodes (step_from step) (step_to step)" "1 / 20"] s(4)
    by simp
  then show ?thesis using s unfolding findPath_def by auto
qed

theorem plan_is_shortest_path_witness:
  "valid_path navigationNodes [''ENTRANCE'', ''HALL1_1'', ''HALL1_2'']
   \<and> (\<exists>steps. findPath ''ENTRANCE'' ''HALL1_2'' = Some (Inr steps)
     \<and> (\<Sum>step\<leftarrow>steps. edge_length navigationNodes (step_from step) (step_to step))
         \<le> path_length navigationNodes [''ENTRANCE'', ''HALL1_1'', ''HALL1_2'']
     \<and> (\<forall>step\<in>set steps.
           \<bar>distance step - edge_length navigationNodes (step_from step) (step_to step)\<bar>
             \<le> 1 / 20)
     \<and> (\<Sum>step\<leftarrow>steps. distance step)
         \<le> path_length navigationNodes [''ENTRANCE'', ''HALL1_1'', ''HALL1_2'']
           + real (length steps) / 20)"
proof -
  have v: "valid_path navigationNodes [''ENTRANCE'', ''HALL1_1'', ''HALL1_2'']"
    by (simp add: edge_def navigation_nodeAt mkNode_def)
  from plan_is_shortest_path[OF v, of "''ENTRANCE''" "''HALL1_2''"] v show ?thesis by simp
qed

text \<open>The sum of the rounded lengths can exceed the length of a valid path. On the dataset
  the plan from \<open>ENTRANCE\<close> to \<open>HALL1_2\<close> is the single edge of length \<open>sqrt 20\<close>, reported as
  \<open>4.5\<close>. On three nodes \<open>A\<close>, \<open>C\<close>, \<open>B\<close> in a line at \<open>0\<close>, \<open>0.25\<close> and \<open>0.75\<close> the plan
  from \<open>A\<close> to \<open>B\<close> is the direct edge, reported as \<open>0.8\<close>, and the other path, through \<open>C\<close>,
  has length \<open>0.75\<close>.\<close>

lemma line_distance: "calculateDistance (x1, y, z) (x2, y, z) = \<bar>x2 - x1\<bar>"
  by (simp add: calculateDistance_def)

lemma corridor_keys: "Object_keys corridor = [''A'', ''B'', ''C'']"
  by (simp add: Object_keys_def corridor_def is_array_index_def is_digit_def)

lemma corridor_nodeAt:
  "nodeAt corridor ''A'' = Some (mkNode ''A'' (0, 0, 0) 1 Entrance [''B'', ''C''])"
  "nodeAt corridor ''B'' = Some (mkNode ''B'' (3 / 4, 0, 0) 1 Room [''A'', ''C''])"
  "nodeAt corridor ''C'' = Some (mkNode ''C'' (1 / 4, 0, 0) 1 Hallway [''A'', ''B''])"
  by (simp_all add: nodeAt_def corridor_def)

lemma corridor_route: "shortestPath corridor ''A'' ''B'' = Some (Inr [Str ''A'', Str ''B''])"
proof -
  let ?g = corridor
  define D0 :: "string \<rightharpoonup> jsnum"
    where "D0 = [''A'' \<mapsto> Fin 0, ''B'' \<mapsto> PosInfinity, ''C'' \<mapsto> PosInfinity]"
  define P0 :: "string \<rightharpoonup> string option"
    where "P0 = [''A'' \<mapsto> None, ''B'' \<mapsto> None, ''C'' \<mapsto> None]"
  define D1 where "D1 = D0(''B'' \<mapsto> Fin (3 / 4), ''C'' \<mapsto> Fin (1 / 4))"
  define P1 where "P1 = P0(''B'' \<mapsto> Some ''A'', ''C'' \<mapsto> Some ''A'')"
  have D0_at: "D0 ''A'' = Some (Fin 0)" "D0 ''B'' = Some PosInfinity" "D0 ''C'' = Some PosInfinity"
    by (simp_all add: D0_def)
  have D1_at: "D1 ''A'' = Some (Fin 0)" "D1 ''B'' = Some (Fin (3 / 4))"
    "D1 ''C'' = Some (Fin (1 / 4))"
    by (simp_all add: D1_def D0_def)
  have init: "initState ''A'' (Object_keys ?g)
      = \<lparr>distances = D0, previous = P0, unvisited = [''A'', ''B'', ''C'']\<rparr>"
    by (simp add: corridor_keys initState_def D0_def P0_def)
  have "dijkstra ?g ''B'' \<lparr>distances = D0, previous = P0, unvisited = [''A'', ''B'', ''C'']\<rparr>
      = dijkstra ?g ''B'' \<lparr>distances = D1, previous = P1, unvisited = [''B'', ''C'']\<rparr>"
    by (rule dijkstra_continue[where c = "''A''" and m = "Fin 0"
          and node = "mkNode ''A'' (0, 0, 0) 1 Entrance [''B'', ''C'']"])
       (simp_all add: corridor_nodeAt line_distance mkNode_def Let_def D0_at D1_def P1_def)
  also have "\<dots> = dijkstra ?g ''B'' \<lparr>distances = D1, previous = P1, unvisited = [''B'']\<rparr>"
    by (rule dijkstra_continue[where c = "''C''" and m = "Fin (1 / 4)"
          and node = "mkNode ''C'' (1 / 4, 0, 0) 1 Hallway [''A'', ''B'']"])
       (simp_all add: corridor_nodeAt line_distance mkNode_def Let_def D1_at)
  also have "\<dots> = Inr \<lparr>distances = D1, previous = P1, unvisited = []\<rparr>"
    using dijkstra_reached[where c = "''B''" and m = "Fin (3 / 4)" and g = ?g
        and st = "\<lparr>distances = D1, previous = P1, unvisited = [''B'']\<rparr>"]
    by (simp add: D1_at)
  finally show ?thesis
    by (simp add: shortestPath_def init readPrevious_def reconstruct_Str P1_def P0_def)
qed

theorem rounded_lengths_counterexample:
  "map_option (map_sum id (map distance)) (findPath ''ENTRANCE'' ''HALL1_2'') = Some (Inr [45 / 10])
   \<and> valid_path navigationNodes [''ENTRANCE'', ''HALL1_2'']
   \<and> path_length navigationNodes [''ENTRANCE'', ''HALL1_2''] < 45 / 10
   \<and> map_option (map_sum id (map step_to)) (findPathOn corridor ''A'' ''B'') = Some (Inr [''B''])
   \<and> map_option (map_sum id (map distance)) (findPathOn corridor ''A'' ''B'') = Some (Inr [8 / 10])
   \<and> valid_path corridor [''A'', ''C'', ''B'']
   \<and> path_length corridor [''A'', ''C'', ''B''] < 8 / 10"
proof -
  have 1: "map_option (map_sum id (map distance)) (findPath ''ENTRANCE'' ''HALL1_2'')
      = Some (Inr [45 / 10])"
    by (simp add: findPath_def findPathOn_def entrance_routes navigation_nodeAt makeStep_fields
        mkNode_def calculateDistance_def rounds)
  have 2: "valid_path navigationNodes [''ENTRANCE'', ''HALL1_2'']"
    by (simp add: edge_def navigation_nodeAt mkNode_def)
  have 3: "path_length navigationNodes [''ENTRANCE'', ''HALL1_2''] < 45 / 10"
    using sqrt_bounds by (simp add: edge_length_def navigation_nodeAt mkNode_def calculateDistance_def)
  have 4: "map_option (map_sum id (map step_to)) (findPathOn corridor ''A'' ''B'') = Some (Inr [''B''])"
    "map_option (map_sum id (map distance)) (findPathOn corridor ''A'' ''B'') = Some (Inr [8 / 10])"
    by (simp_all add: findPathOn_def corridor_route corridor_nodeAt makeStep_fields mkNode_def
        line_distance Math_round_def)
  have 5: "valid_path corridor [''A'', ''C'', ''B'']"
    by (simp add: edge_def corridor_nodeAt mkNode_def)
  have 6: "path_length corridor [''A'', ''C'', ''B''] < 8 / 10"
    by (simp add: edge_length_def corridor_nodeAt mkNode_def line_distance)
  show ?thesis using 1 2 3 4 5 6 by blast
qed

end
